theory Spec2Isabelle
  imports Main
begin

section \<open>Python values used by the embedding\<close>

text \<open>
  Python strings are modelled as \<open>string\<close>; a character position is an \<open>int\<close>
  (Python integers are unbounded), a count is a \<open>nat\<close>.  A span is the pair
  \<open>(start, end)\<close> of character positions the source passes around as a tuple.
  Every exception the modelled code can raise is a value of \<open>pyerror\<close>.
\<close>

datatype pyerror = IndexError | ValueError | AssertionError | UnboundLocalError | FileNotFoundError

type_synonym span = "int \<times> int"

type_synonym token = "string \<times> span"

text \<open>\<open>str.isspace\<close> on the code points below 256.\<close>

definition is_space :: "char \<Rightarrow> bool" where
  "is_space c = (c \<in> {CHR '' '', CHR 0x09, CHR 0x0A, CHR 0x0B, CHR 0x0C, CHR 0x0D,
                       CHR 0x1C, CHR 0x1D, CHR 0x1E, CHR 0x1F, CHR 0x85, CHR 0xA0})"

text \<open>\<open>s.strip()\<close>: leading and trailing whitespace removed.\<close>

definition strip :: "string \<Rightarrow> string" where
  "strip s = rev (dropWhile is_space (rev (dropWhile is_space s)))"

text \<open>\<open>text.split("\n")\<close>: the pieces between newlines; never the empty list.\<close>

fun split_nl :: "string \<Rightarrow> string list" where
  "split_nl [] = [[]]"
| "split_nl (c # cs) =
     (if c = CHR 0x0A then [] # split_nl cs
      else (case split_nl cs of [] \<Rightarrow> [[c]] | l # ls \<Rightarrow> (c # l) # ls))"

text \<open>\<open>text.endswith("\n")\<close>.\<close>

definition endswith_nl :: "string \<Rightarrow> bool" where
  "endswith_nl s = (s \<noteq> [] \<and> last s = CHR 0x0A)"

text \<open>\<open>" ".join(words)\<close>.\<close>

fun join_sp :: "string list \<Rightarrow> string" where
  "join_sp [] = []"
| "join_sp [w] = w"
| "join_sp (w # v # ws) = w @ '' '' @ join_sp (v # ws)"

text \<open>
  \<open>s[b:e]\<close> with Python's rules: a negative index counts from the end, and both
  indices are clipped to the string.
\<close>

definition py_index :: "nat \<Rightarrow> int \<Rightarrow> nat" where
  "py_index n i = (if i < 0 then nat (max 0 (i + int n)) else min (nat i) n)"

definition py_slice :: "'a list \<Rightarrow> int \<Rightarrow> int \<Rightarrow> 'a list" where
  "py_slice s b e = take (py_index (length s) e - py_index (length s) b) (drop (py_index (length s) b) s)"

text \<open>
  \<open>s.count("``")\<close> and \<open>s.count("''")\<close>: the non-overlapping occurrences of a
  doubled character, scanning from the left.
\<close>

fun count_double :: "char \<Rightarrow> string \<Rightarrow> nat" where
  "count_double c (x # y # xs) =
     (if x = c \<and> y = c then Suc (count_double c xs) else count_double c (y # xs))"
| "count_double c xs = 0"

section \<open>diff.py: the symbol codec and the word-level diff\<close>

subsection \<open>The registry shared by both texts\<close>

text \<open>
  \<open>diff_wordsToChars\<close> owns \<open>lineArray\<close> (chunk of each symbol) and
  \<open>lineHash\<close> (symbol of each chunk); the closure \<open>diff_linesToCharsMunge\<close>
  updates both.  A symbol is the code point handed to \<open>chr\<close>, a \<open>nat\<close>;
  \<open>chr\<close> raises \<open>ValueError\<close> above 0x10FFFF.
\<close>

record registry =
  lineArray :: "string list"
  lineHash :: "string \<rightharpoonup> nat"

definition chr_py :: "nat \<Rightarrow> pyerror + nat" where
  "chr_py k = (if k \<le> 1114111 then Inr k else Inl ValueError)"

text \<open>
  The tokenizer \<open>nlp\<close> (spaCy) is not part of the repository: it is a parameter,
  giving for a line its tokens \<open>(w.text, (w.idx, w.idx + len(w.text)))\<close>.
\<close>

type_synonym tokenizer = "string \<Rightarrow> token list"

text \<open>
  The \<open>for\<close> loop over \<open>text.split("\n")\<close>: \<open>words\<close> is extended by the
  tokens of every non-blank line, \<open>offset_list\<close> is assigned the spans of the
  line at hand.
\<close>

fun collect_words :: "tokenizer \<Rightarrow> string list \<Rightarrow> string list \<Rightarrow> span list
    \<Rightarrow> string list \<times> span list" where
  "collect_words nlp [] words offset_list = (words, offset_list)"
| "collect_words nlp (line # lines) words offset_list =
     (if strip line \<noteq> [] then
        (let word_tuples = nlp line in
         if word_tuples \<noteq> [] then
           collect_words nlp lines (words @ map fst word_tuples) (map snd word_tuples)
         else collect_words nlp lines words offset_list)
      else collect_words nlp lines words offset_list)"

text \<open>The words of a text, with the newline appended when the text ends in one.\<close>

definition text_words :: "tokenizer \<Rightarrow> string \<Rightarrow> string list \<times> span list" where
  "text_words nlp text =
     (let (words, offset_list) = collect_words nlp (split_nl text) [] [] in
      (if endswith_nl text then words @ [[CHR 0x0A]] else words, offset_list))"

text \<open>\<open>text = " ".join(words) + " "\<close>: the text the symbols encode.\<close>

definition munged_text :: "tokenizer \<Rightarrow> string \<Rightarrow> string" where
  "munged_text nlp text = join_sp (fst (text_words nlp text)) @ '' ''"

text \<open>
  \<open>text.find(" ", lineStart)\<close>, relative to \<open>lineStart\<close>: the loop below keeps
  the unread part \<open>rest = text[lineStart:]\<close> of the text.
\<close>

definition find_space :: "string \<Rightarrow> nat option" where
  "find_space rest =
     (if CHR '' '' \<in> set rest then Some (length (takeWhile (\<lambda>c. c \<noteq> CHR '' '') rest)) else None)"

text \<open>\<open>line = text[lineStart : lineEnd + 1]\<close>, the whole rest when no space is found.\<close>

definition next_line :: "string \<Rightarrow> string" where
  "next_line rest = (case find_space rest of None \<Rightarrow> rest | Some j \<Rightarrow> take (Suc j) rest)"

text \<open>
  One turn of the \<open>while\<close> loop: the symbol appended to \<open>chars\<close>, the registry
  and the unread text after it.  At \<open>maxLines\<close> entries the rest of the text
  becomes one chunk and nothing is left to read.
\<close>

definition munge_step :: "nat \<Rightarrow> registry \<Rightarrow> string \<Rightarrow> pyerror + (nat \<times> registry \<times> string)" where
  "munge_step maxLines reg rest =
     (let line = next_line rest in
      case lineHash reg line of
        Some k \<Rightarrow>
          (case chr_py k of Inl e \<Rightarrow> Inl e
           | Inr c \<Rightarrow> Inr (c, reg, drop (length line) rest))
      | None \<Rightarrow>
          (let bail = (length (lineArray reg) = maxLines);
               line' = (if bail then rest else line);
               arr = lineArray reg @ [line'];
               reg' = \<lparr>lineArray = arr, lineHash = (lineHash reg)(line' \<mapsto> length arr - 1)\<rparr>
           in case chr_py (length arr - 1) of Inl e \<Rightarrow> Inl e
              | Inr c \<Rightarrow> Inr (c, reg', if bail then [] else drop (length line) rest)))"

lemma next_line_nonempty: "rest \<noteq> [] \<Longrightarrow> next_line rest \<noteq> []"
  by (cases rest) (auto simp: next_line_def find_space_def)

lemma munge_step_shorter:
  assumes "munge_step maxLines reg rest = Inr (c, reg', rest')" and "rest \<noteq> []"
  shows "length rest' < length rest"
proof -
  have "0 < length (next_line rest)"
    using next_line_nonempty [OF assms(2)] by simp
  then have "length (drop (length (next_line rest)) rest) < length rest"
    using assms(2) by simp
  then show ?thesis
    using assms
    by (auto simp: munge_step_def Let_def split: option.splits sum.splits if_splits)
qed

function munge_loop :: "nat \<Rightarrow> registry \<Rightarrow> string \<Rightarrow> nat list \<Rightarrow> pyerror + (nat list \<times> registry)" where
  "munge_loop maxLines reg rest chars =
     (if rest = [] then Inr (chars, reg)
      else (case munge_step maxLines reg rest of
              Inl e \<Rightarrow> Inl e
            | Inr (c, reg', rest') \<Rightarrow> munge_loop maxLines reg' rest' (chars @ [c])))"
  by pat_completeness auto
termination
  by (relation "measure (\<lambda>(maxLines, reg, rest, chars). length rest)")
     (auto dest: munge_step_shorter)

declare munge_loop.simps [simp del]

text \<open>
  \<open>diff_linesToCharsMunge(text)\<close>: the symbol string, the offset list and the
  registry as the call leaves it.
\<close>

definition diff_linesToCharsMunge :: "tokenizer \<Rightarrow> nat \<Rightarrow> registry \<Rightarrow> string
    \<Rightarrow> pyerror + (nat list \<times> span list \<times> registry)" where
  "diff_linesToCharsMunge nlp maxLines reg text =
     (let (words, offset_list) = text_words nlp text;
          text' = join_sp words @ '' ''
      in case munge_loop maxLines reg text' [] of
           Inl e \<Rightarrow> Inl e
         | Inr (chars, reg') \<Rightarrow> Inr (chars, offset_list, reg'))"

text \<open>\<open>lineArray = [""]\<close>, \<open>lineHash = {}\<close>.\<close>

definition registry0 :: registry where
  "registry0 = \<lparr>lineArray = [[]], lineHash = Map.empty\<rparr>"

definition diff_wordsToChars :: "tokenizer \<Rightarrow> string \<Rightarrow> string
    \<Rightarrow> pyerror + (nat list \<times> nat list \<times> string list \<times> (span list \<times> span list))" where
  "diff_wordsToChars nlp text1 text2 =
     (case diff_linesToCharsMunge nlp 666666 registry0 text1 of
        Inl e \<Rightarrow> Inl e
      | Inr (chars1, offsets1, reg1) \<Rightarrow>
          (case diff_linesToCharsMunge nlp 1114111 reg1 text2 of
             Inl e \<Rightarrow> Inl e
           | Inr (chars2, offsets2, reg2) \<Rightarrow>
               Inr (chars1, chars2, lineArray reg2, (offsets1, offsets2))))"

subsection \<open>The diff over symbols and its decoding\<close>

text \<open>
  The tags of a run: \<open>DIFF_DELETE = -1\<close>, \<open>DIFF_INSERT = 1\<close>,
  \<open>DIFF_EQUAL = 0\<close>.  \<open>diff_main\<close> belongs to the diff-match-patch library,
  not to the repository: the embedding takes it as the parameter \<open>dmp\<close>.  Its
  contract is the library's own: \<open>diff_text1\<close> of the result is the first
  text, \<open>diff_text2\<close> the second.
\<close>

datatype op = DIFF_DELETE | DIFF_INSERT | DIFF_EQUAL

type_synonym diff_main = "nat list \<Rightarrow> nat list \<Rightarrow> (op \<times> nat list) list"

definition diff_text1 :: "(op \<times> 'a list) list \<Rightarrow> 'a list" where
  "diff_text1 diffs = concat (map snd (filter (\<lambda>r. fst r \<noteq> DIFF_INSERT) diffs))"

definition diff_text2 :: "(op \<times> 'a list) list \<Rightarrow> 'a list" where
  "diff_text2 diffs = concat (map snd (filter (\<lambda>r. fst r \<noteq> DIFF_DELETE) diffs))"

definition valid_diff :: "(op \<times> 'a list) list \<Rightarrow> 'a list \<Rightarrow> 'a list \<Rightarrow> bool" where
  "valid_diff diffs a b = (diff_text1 diffs = a \<and> diff_text2 diffs = b)"

text \<open>
  \<open>diff_charsToLines(diff, lineArray)\<close>: every symbol of a run is replaced by
  \<open>lineArray[ord(char)]\<close>, an \<open>IndexError\<close> when the symbol is not in the array.
\<close>

fun decode_chars :: "string list \<Rightarrow> nat list \<Rightarrow> pyerror + string" where
  "decode_chars arr [] = Inr []"
| "decode_chars arr (c # cs) =
     (if c < length arr then
        (case decode_chars arr cs of Inl e \<Rightarrow> Inl e | Inr s \<Rightarrow> Inr (arr ! c @ s))
      else Inl IndexError)"

fun diff_charsToLines :: "(op \<times> nat list) list \<Rightarrow> string list \<Rightarrow> pyerror + (op \<times> string) list" where
  "diff_charsToLines [] arr = Inr []"
| "diff_charsToLines ((t, cs) # diffs) arr =
     (case decode_chars arr cs of
        Inl e \<Rightarrow> Inl e
      | Inr s \<Rightarrow> (case diff_charsToLines diffs arr of
                    Inl e \<Rightarrow> Inl e
                  | Inr rest \<Rightarrow> Inr ((t, s) # rest)))"

text \<open>
  \<open>diff_wordMode(text1, text2)\<close> with \<open>return_offsets=True\<close>, its default:
  the decoded runs, the runs over symbols and the two offset lists.
\<close>

definition diff_wordMode :: "diff_main \<Rightarrow> tokenizer \<Rightarrow> string \<Rightarrow> string
    \<Rightarrow> pyerror + ((op \<times> string) list \<times> (op \<times> nat list) list \<times> (span list \<times> span list))" where
  "diff_wordMode dmp nlp text1 text2 =
     (case diff_wordsToChars nlp text1 text2 of
        Inl e \<Rightarrow> Inl e
      | Inr (lineText1, lineText2, arr, offsets) \<Rightarrow>
          (let char_diff = dmp lineText1 lineText2 in
           case diff_charsToLines char_diff arr of
             Inl e \<Rightarrow> Inl e
           | Inr diff \<Rightarrow> Inr (diff, char_diff, offsets)))"

subsection \<open>Concrete stand-ins for evaluating examples\<close>

text \<open>
  Two simple instances of the parameters, for evaluating the embedding on examples:
  a tokenizer that cuts a line at spaces, and an edit script that keeps the common
  prefix and suffix of the two symbol strings and replaces what lies between.
  \<open>diff_main\<close> starts the same way (one equal run for equal texts, then the common
  prefix and suffix are set aside); where the two middle parts share no symbol and
  one of them is empty or a single symbol, as in the examples of this theory, it
  returns these runs.
\<close>

fun tok_ws :: "int \<Rightarrow> string \<Rightarrow> string \<Rightarrow> token list" where
  "tok_ws i cur [] = (if cur = [] then [] else [(cur, (i - int (length cur), i))])"
| "tok_ws i cur (c # cs) =
     (if c = CHR '' '' then
        (if cur = [] then [] else [(cur, (i - int (length cur), i))]) @ tok_ws (i + 1) [] cs
      else tok_ws (i + 1) (cur @ [c]) cs)"

definition ws_tokenize :: tokenizer where
  "ws_tokenize line = tok_ws 0 [] line"

fun common_prefix :: "'a list \<Rightarrow> 'a list \<Rightarrow> 'a list" where
  "common_prefix (x # xs) (y # ys) = (if x = y then x # common_prefix xs ys else [])"
| "common_prefix xs ys = []"

definition run :: "op \<Rightarrow> 'a list \<Rightarrow> (op \<times> 'a list) list" where
  "run t s = (if s = [] then [] else [(t, s)])"

definition trim_diff :: "'a list \<Rightarrow> 'a list \<Rightarrow> (op \<times> 'a list) list" where
  "trim_diff a b =
     (let p = common_prefix a b;
          a1 = drop (length p) a;
          b1 = drop (length p) b;
          s = rev (common_prefix (rev a1) (rev b1));
          a2 = take (length a1 - length s) a1;
          b2 = take (length b1 - length s) b1
      in run DIFF_EQUAL p @ run DIFF_DELETE a2 @ run DIFF_INSERT b2 @ run DIFF_EQUAL s)"

section \<open>edits_html.py: the edit classifier\<close>

subsection \<open>Edit records and offset consumption\<close>

text \<open>
  An edit record is the dictionary \<open>handle_diff\<close> appends to \<open>edit_dicts\<close>.
  The sentinel span is \<open>(-1, -1)\<close>.
\<close>

record edit_dict =
  edit_type :: string
  offset1 :: span
  offset2 :: span
  text1 :: string
  text2 :: string

text \<open>
  \<open>diff_string.count("''") + diff_string.count("``")\<close>; the character of the
  first marker is the apostrophe, code point 0x27.
\<close>

definition num_double_quotes :: "string \<Rightarrow> nat" where
  "num_double_quotes diff_string =
     count_double (CHR 0x27) diff_string + count_double (CHR 0x60) diff_string"

text \<open>
  The local function \<open>deque\<close>: the span of the first \<open>num_tokens\<close> offsets and
  the offsets left.  A slice never raises; \<open>diff_offsets[0]\<close> and
  \<open>diff_offsets[-1]\<close> are read only when the slice is not empty.
\<close>

definition deque :: "span list \<Rightarrow> string \<Rightarrow> nat \<Rightarrow> span \<times> span list" where
  "deque offset_list diff_string num_tokens =
     (let diff_offsets = take num_tokens offset_list in
      (if diff_offsets = [] then (-1, -1)
       else (fst (hd diff_offsets),
             snd (last diff_offsets) - int (num_double_quotes diff_string)),
       drop num_tokens offset_list))"

text \<open>\<open>content[begin:end] if begin >= 0 else ""\<close>.\<close>

definition span_text :: "string \<Rightarrow> span \<Rightarrow> string" where
  "span_text content off = (if fst off \<ge> 0 then py_slice content (fst off) (snd off) else [])"

subsection \<open>The loop of \<open>handle_diff\<close>\<close>

text \<open>
  The variables the loop updates.  \<open>format_edit\<close> renders a template file and is a
  parameter; \<open>content1\<close>, \<open>content2\<close> and \<open>num_edits\<close> are attributes of
  \<open>self\<close>.  The arguments \<open>s1_indices\<close> and \<open>s2_indices\<close> are never read.
\<close>

record loop_state =
  offsets1 :: "span list"
  offsets2 :: "span list"
  html1 :: "string list"
  html2 :: "string list"
  edit_dicts :: "edit_dict list"
  num_edits :: nat

definition new_edit :: "string \<Rightarrow> string \<Rightarrow> string \<Rightarrow> span \<Rightarrow> span \<Rightarrow> edit_dict" where
  "new_edit content1 content2 et edit_offset1 edit_offset2 =
     \<lparr>edit_type = et, offset1 = edit_offset1, offset2 = edit_offset2,
      text1 = span_text content1 edit_offset1, text2 = span_text content2 edit_offset2\<rparr>"

text \<open>
  One turn of \<open>while i <= last_index\<close>: the state after it and the next \<open>i\<close>.
  \<open>num_tokens_list[i]\<close> raises \<open>IndexError\<close> when \<open>char_diff\<close> is shorter
  than \<open>diff\<close>.
\<close>

definition handle_turn :: "(string \<Rightarrow> string \<Rightarrow> string) \<Rightarrow> string \<Rightarrow> string
    \<Rightarrow> (op \<times> string) list \<Rightarrow> nat list \<Rightarrow> nat \<Rightarrow> loop_state \<Rightarrow> pyerror + (loop_state \<times> nat)" where
  "handle_turn format_edit content1 content2 diff num_tokens_list i st =
     (let diff_type = fst (diff ! i);
          diff_string = strip (snd (diff ! i));
          last_index = int (length diff) - 1
      in if length num_tokens_list \<le> i then Inl IndexError
         else
          (let num_tokens = num_tokens_list ! i in
           case diff_type of
             DIFF_DELETE \<Rightarrow>
               if int i < last_index \<and> fst (diff ! (i + 1)) = DIFF_INSERT then
                 (let subbed_string = strip (snd (diff ! (i + 1)));
                      h1 = (if length diff_string > 1
                            then html1 st @ [format_edit diff_string ''substitution'']
                            else html1 st);
                      h2 = (if length diff_string > 1
                            then html2 st @ [format_edit subbed_string ''substitution'']
                            else html2 st);
                      (edit_offset1, o1) = deque (offsets1 st) diff_string num_tokens
                  in if length num_tokens_list \<le> i + 1 then Inl IndexError
                     else
                      (let (edit_offset2, o2) =
                             deque (offsets2 st) diff_string (num_tokens_list ! (i + 1))
                       in Inr (\<lparr>offsets1 = o1, offsets2 = o2, html1 = h1, html2 = h2,
                                edit_dicts = edit_dicts st @
                                  [new_edit content1 content2 ''substitution'' edit_offset1 edit_offset2],
                                num_edits = num_edits st + 1\<rparr>, i + 2)))
               else
                 (let h1 = (if length diff_string > 1
                            then html1 st @ [format_edit diff_string ''deletion'']
                            else html1 st);
                      (edit_offset1, o1) = deque (offsets1 st) diff_string num_tokens
                  in Inr (\<lparr>offsets1 = o1, offsets2 = offsets2 st, html1 = h1, html2 = html2 st,
                           edit_dicts = edit_dicts st @
                             [new_edit content1 content2 ''deletion'' edit_offset1 (-1, -1)],
                           num_edits = num_edits st + 1\<rparr>, i + 1))
           | DIFF_INSERT \<Rightarrow>
               (let h2 = (if length diff_string > 1
                          then html2 st @ [format_edit diff_string ''insertion'']
                          else html2 st);
                    (edit_offset2, o2) = deque (offsets2 st) diff_string num_tokens
                in Inr (\<lparr>offsets1 = offsets1 st, offsets2 = o2, html1 = html1 st, html2 = h2,
                         edit_dicts = edit_dicts st @
                           [new_edit content1 content2 ''insertion'' (-1, -1) edit_offset2],
                         num_edits = num_edits st + 1\<rparr>, i + 1))
           | DIFF_EQUAL \<Rightarrow>
               (let (edit_offset1, o1) = deque (offsets1 st) diff_string num_tokens;
                    (edit_offset2, o2) = deque (offsets2 st) diff_string num_tokens
                in Inr (\<lparr>offsets1 = o1, offsets2 = o2,
                         html1 = html1 st @ [diff_string], html2 = html2 st @ [diff_string],
                         edit_dicts = edit_dicts st @
                           [new_edit content1 content2 ''same'' edit_offset1 edit_offset2],
                         num_edits = num_edits st\<rparr>, i + 1))))"

lemma handle_turn_next:
  "handle_turn format_edit content1 content2 diff num_tokens_list i st = Inr (st', i') \<Longrightarrow> i < i'"
  by (auto simp: handle_turn_def Let_def split: if_splits op.splits prod.splits)

function handle_loop :: "(string \<Rightarrow> string \<Rightarrow> string) \<Rightarrow> string \<Rightarrow> string
    \<Rightarrow> (op \<times> string) list \<Rightarrow> nat list \<Rightarrow> nat \<Rightarrow> loop_state \<Rightarrow> pyerror + loop_state" where
  "handle_loop format_edit content1 content2 diff num_tokens_list i st =
     (if int i \<le> int (length diff) - 1 then
        (case handle_turn format_edit content1 content2 diff num_tokens_list i st of
           Inl e \<Rightarrow> Inl e
         | Inr (st', i') \<Rightarrow> handle_loop format_edit content1 content2 diff num_tokens_list i' st')
      else Inr st)"
  by pat_completeness auto
termination
  by (relation "measure (\<lambda>(format_edit, content1, content2, diff, num_tokens_list, i, st). length diff - i)")
     (auto dest: handle_turn_next)

declare handle_loop.simps [simp del]

text \<open>
  \<open>handle_diff\<close>: \<open>list(zip(*char_diff))[1]\<close> raises \<open>IndexError\<close> for an empty
  \<open>char_diff\<close>; otherwise \<open>num_tokens_list\<close> holds the number of symbols of each
  run.  The result is the two joined HTML strings and \<open>edit_dicts\<close>, with the
  counter \<open>self.num_edits\<close> as the call leaves it.
\<close>

definition handle_diff :: "(string \<Rightarrow> string \<Rightarrow> string) \<Rightarrow> string \<Rightarrow> string \<Rightarrow> nat
    \<Rightarrow> (op \<times> string) list \<Rightarrow> (op \<times> nat list) list \<Rightarrow> span list \<Rightarrow> span list
    \<Rightarrow> pyerror + (string \<times> string \<times> edit_dict list \<times> nat)" where
  "handle_diff format_edit content1 content2 n diff char_diff offs1 offs2 =
     (if char_diff = [] then Inl IndexError
      else
       (let num_tokens_list = map (\<lambda>r. length (snd r)) char_diff in
        case handle_loop format_edit content1 content2 diff num_tokens_list 0
               \<lparr>offsets1 = offs1, offsets2 = offs2, html1 = [], html2 = [],
                edit_dicts = [], num_edits = n\<rparr> of
          Inl e \<Rightarrow> Inl e
        | Inr st \<Rightarrow> Inr (join_sp (html1 st), join_sp (html2 st), edit_dicts st, num_edits st)))"

subsection \<open>The classifier on a pair of aligned sentences\<close>

text \<open>
  \<open>get_token_offsets\<close>: the spans of the tokens, local to the sentence, shifted by the
  offset of the sentence in the document (the parameter \<open>par_index\<close> is not used).
\<close>

definition get_token_offsets :: "span list \<Rightarrow> int \<Rightarrow> span list" where
  "get_token_offsets token_offsets sent_offset =
     map (\<lambda>(begin, end). (begin + sent_offset, end + sent_offset)) token_offsets"

text \<open>
  What \<open>get_diff_html\<close> does with a pair of aligned sentences \<open>s1\<close>, \<open>s2\<close>: the
  word-level diff, the two offset lists it returns made global, and the classifier
  on the result.  \<open>sent_offset1\<close> is \<open>s1_dicts[0]["offset"][0]\<close>.
\<close>

definition diff_sentences :: "diff_main \<Rightarrow> tokenizer \<Rightarrow> (string \<Rightarrow> string \<Rightarrow> string) \<Rightarrow> string \<Rightarrow> string
    \<Rightarrow> nat \<Rightarrow> string \<Rightarrow> string \<Rightarrow> int \<Rightarrow> int
    \<Rightarrow> pyerror + (string \<times> string \<times> edit_dict list \<times> nat)" where
  "diff_sentences dmp nlp format_edit content1 content2 n s1 s2 sent_offset1 sent_offset2 =
     (case diff_wordMode dmp nlp s1 s2 of
        Inl e \<Rightarrow> Inl e
      | Inr (diff, char_diff, (offs1, offs2)) \<Rightarrow>
          (let token_offsets1 = get_token_offsets offs1 sent_offset1;
               token_offsets2 = get_token_offsets offs2 sent_offset2
           in handle_diff format_edit content1 content2 n diff char_diff
                token_offsets1 token_offsets2))"

subsection \<open>Unaligned paragraphs\<close>

text \<open>
  \<open>self.edits_json_dict\<close>: the sentence entries of both files and the alignments,
  keyed by the global index of the sentence of file 1, or by \<open>-1\<close>.  The entry
  \<open>dummy_dict\<close> has no paragraph or sentence index.
\<close>

record sentence_dict =
  sentence_text :: string
  paragraph_index :: "nat option"
  sentence_index :: "nat option"
  offset :: span

record alignment =
  match :: "int list"
  edits :: "edit_dict list"

record edits_json_dict =
  file1_sentences :: "sentence_dict list"
  file2_sentences :: "sentence_dict list"
  alignments :: "int \<rightharpoonup> alignment"

text \<open>\<open>xs[i]\<close> and \<open>xs[i] = v\<close> for \<open>i >= 0\<close>: an \<open>IndexError\<close> out of range.\<close>

definition list_get :: "'a list \<Rightarrow> nat \<Rightarrow> pyerror + 'a" where
  "list_get xs i = (if i < length xs then Inr (xs ! i) else Inl IndexError)"

definition list_set :: "'a list \<Rightarrow> nat \<Rightarrow> 'a \<Rightarrow> pyerror + 'a list" where
  "list_set xs i v = (if i < length xs then Inr (xs[i := v]) else Inl IndexError)"

text \<open>
  \<open>get_sent_indices\<close>: the number of sentence slots before paragraph \<open>par_index\<close>
  is added to every local index.  \<open>paragraphs[i][0]\<close> is read in each turn.
\<close>

function sentence_offset_loop :: "string list list \<Rightarrow> nat \<Rightarrow> nat \<Rightarrow> nat \<Rightarrow> pyerror + nat" where
  "sentence_offset_loop paragraphs par_index i sentence_offset =
     (if i < par_index then
        (if length paragraphs \<le> i then Inl IndexError
         else if paragraphs ! i = [] then Inl IndexError
         else if hd (paragraphs ! i) \<noteq> [] then
           sentence_offset_loop paragraphs par_index (i + 1) (sentence_offset + length (paragraphs ! i))
         else sentence_offset_loop paragraphs par_index (i + 1) (sentence_offset + 1))
      else Inr sentence_offset)"
  by pat_completeness auto
termination
  by (relation "measure (\<lambda>(paragraphs, par_index, i, sentence_offset). par_index - i)") auto

declare sentence_offset_loop.simps [simp del]

definition get_sent_indices :: "nat \<Rightarrow> string list list \<Rightarrow> nat list \<Rightarrow> pyerror + nat list" where
  "get_sent_indices par_index paragraphs sentence_list =
     (case sentence_offset_loop paragraphs par_index 0 0 of
        Inl e \<Rightarrow> Inl e
      | Inr sentence_offset \<Rightarrow> Inr (map (\<lambda>j. j + sentence_offset) sentence_list))"

text \<open>
  The body of the loop over the sentences of an unaligned paragraph: the sentence
  entry is stored, then the alignment with its one edit record.
\<close>

definition unaligned_sentence :: "string \<Rightarrow> span list \<Rightarrow> span list \<Rightarrow> nat \<Rightarrow> string list
    \<Rightarrow> nat list \<Rightarrow> nat \<Rightarrow> edits_json_dict \<Rightarrow> pyerror + edits_json_dict" where
  "unaligned_sentence et sentence_offsets1 sentence_offsets2 par_index paragraph_sentence_list
       global_sent_indices local_sent_index js =
     (let global_sent_index = global_sent_indices ! local_sent_index;
          offset_list = (if et = ''deletion'' then sentence_offsets1 else sentence_offsets2);
          s1_index = (if et = ''deletion'' then int global_sent_index else -1);
          s2_indices = (if et = ''deletion'' then [-1] else [int global_sent_index]);
          sentence = paragraph_sentence_list ! local_sent_index
      in case list_get offset_list global_sent_index of
           Inl e \<Rightarrow> Inl e
         | Inr off \<Rightarrow>
            (let entry = \<lparr>sentence_text = sentence, paragraph_index = Some par_index,
                          sentence_index = Some global_sent_index, offset = off\<rparr>;
                 stored = (if et = ''deletion''
                           then map_sum id (\<lambda>l. js\<lparr>file1_sentences := l\<rparr>)
                                  (list_set (file1_sentences js) global_sent_index entry)
                           else map_sum id (\<lambda>l. js\<lparr>file2_sentences := l\<rparr>)
                                  (list_set (file2_sentences js) global_sent_index entry))
             in case stored of
                  Inl e \<Rightarrow> Inl e
                | Inr js' \<Rightarrow>
                    Inr (js'\<lparr>alignments := (alignments js')(s1_index \<mapsto>
                      \<lparr>match = s2_indices,
                       edits = [\<lparr>edit_type = et,
                                 offset1 = (if et = ''insertion'' then (-1, -1) else off),
                                 offset2 = (if et = ''deletion'' then (-1, -1) else off),
                                 text1 = (if et = ''insertion'' then [] else sentence),
                                 text2 = (if et = ''deletion'' then [] else sentence)\<rparr>]\<rparr>)\<rparr>)))"

fun unaligned_sentences :: "string \<Rightarrow> span list \<Rightarrow> span list \<Rightarrow> nat \<Rightarrow> string list
    \<Rightarrow> nat list \<Rightarrow> nat list \<Rightarrow> edits_json_dict \<Rightarrow> pyerror + edits_json_dict" where
  "unaligned_sentences et so1 so2 par_index sentences global_sent_indices [] js = Inr js"
| "unaligned_sentences et so1 so2 par_index sentences global_sent_indices (local_sent_index # ls) js =
     (case unaligned_sentence et so1 so2 par_index sentences global_sent_indices local_sent_index js of
        Inl e \<Rightarrow> Inl e
      | Inr js' \<Rightarrow> unaligned_sentences et so1 so2 par_index sentences global_sent_indices ls js')"

text \<open>
  \<open>add_unaligned_paragraphs\<close>: the loop over \<open>enumerate(paragraphs)\<close>.  The state
  is \<open>self.edits_json_dict\<close>, the list \<open>text_html\<close> and \<open>self.num_edits\<close>.
\<close>

fun unaligned_loop :: "(string \<Rightarrow> string \<Rightarrow> string) \<Rightarrow> span list \<Rightarrow> span list \<Rightarrow> string
    \<Rightarrow> nat set \<Rightarrow> string list list \<Rightarrow> nat list
    \<Rightarrow> edits_json_dict \<times> string list \<times> nat \<Rightarrow> pyerror + (edits_json_dict \<times> string list \<times> nat)" where
  "unaligned_loop format_edit so1 so2 et seen_pars paragraphs [] st = Inr st"
| "unaligned_loop format_edit so1 so2 et seen_pars paragraphs (par_index # rest) (js, text_html, n) =
     (let paragraph_sentence_list = paragraphs ! par_index;
          par_text = join_sp paragraph_sentence_list
      in if par_index \<in> seen_pars then
           unaligned_loop format_edit so1 so2 et seen_pars paragraphs rest (js, text_html, n)
         else
          (case list_get text_html par_index of
             Inl e \<Rightarrow> Inl e
           | Inr h \<Rightarrow>
               if h \<noteq> [] then
                 unaligned_loop format_edit so1 so2 et seen_pars paragraphs rest (js, text_html, n)
               else
                (let local_sentence_indices = [0..<length paragraph_sentence_list] in
                 case get_sent_indices par_index paragraphs local_sentence_indices of
                   Inl e \<Rightarrow> Inl e
                 | Inr global_sent_indices \<Rightarrow>
                     if et \<noteq> ''deletion'' \<and> et \<noteq> ''insertion'' then Inl AssertionError
                     else
                      (case unaligned_sentences et so1 so2 par_index paragraph_sentence_list
                              global_sent_indices local_sentence_indices js of
                         Inl e \<Rightarrow> Inl e
                       | Inr js' \<Rightarrow>
                          (case list_set text_html par_index (format_edit par_text et) of
                             Inl e \<Rightarrow> Inl e
                           | Inr text_html' \<Rightarrow>
                               unaligned_loop format_edit so1 so2 et seen_pars paragraphs rest
                                 (js', text_html', n + 1))))))"

definition add_unaligned_paragraphs :: "(string \<Rightarrow> string \<Rightarrow> string) \<Rightarrow> span list \<Rightarrow> span list
    \<Rightarrow> string \<Rightarrow> nat set \<Rightarrow> string list \<Rightarrow> string list list \<Rightarrow> edits_json_dict \<Rightarrow> nat
    \<Rightarrow> pyerror + (edits_json_dict \<times> string list \<times> nat)" where
  "add_unaligned_paragraphs format_edit so1 so2 et seen_pars text_html paragraphs js n =
     unaligned_loop format_edit so1 so2 et seen_pars paragraphs [0..<length paragraphs]
       (js, text_html, n)"

section \<open>aligned_text.py: the sentence offset table\<close>

text \<open>
  The attributes of \<open>AlignedText\<close> that \<open>get_sentence_offsets\<close> reads: the
  normalized text of each file and, per paragraph index, the spans of its sentences
  local to the paragraph.  A paragraph without sentences has no entry.
\<close>

record aligned_text =
  content1 :: string
  content2 :: string
  sentence_offsets1 :: "nat \<rightharpoonup> span list"
  sentence_offsets2 :: "nat \<rightharpoonup> span list"

text \<open>
  The loop over \<open>enumerate(paragraphs)\<close>.  \<open>offset_list[-1]\<close> raises
  \<open>IndexError\<close> for an empty list.
\<close>

fun offsets_loop :: "(nat \<rightharpoonup> span list) \<Rightarrow> string list \<Rightarrow> nat \<Rightarrow> int \<Rightarrow> span list
    \<Rightarrow> pyerror + span list" where
  "offsets_loop sentence_offsets [] i curr_offset offsets = Inr offsets"
| "offsets_loop sentence_offsets (paragraph # paragraphs) i curr_offset offsets =
     (case sentence_offsets i of
        Some offset_list \<Rightarrow>
          if offset_list = [] then Inl IndexError
          else
           (let offsets' = offsets @ map (\<lambda>(b, e). (b + curr_offset, e + curr_offset)) offset_list;
                curr = curr_offset + snd (last offset_list) + 1;
                curr' = (if paragraph \<noteq> [] \<and> last paragraph = CHR '' ''
                         then curr + (int (length paragraph) - int (length (strip paragraph)))
                         else curr)
            in offsets_loop sentence_offsets paragraphs (i + 1) curr' offsets')
      | None \<Rightarrow>
          offsets_loop sentence_offsets paragraphs (i + 1) (curr_offset + 1) (offsets @ [(-1, -1)]))"

text \<open>
  \<open>get_sentence_offsets(file_num)\<close>; with a \<open>file_num\<close> other than 1 and 2 the
  local variables are never bound.
\<close>

definition get_sentence_offsets :: "aligned_text \<Rightarrow> int \<Rightarrow> pyerror + span list" where
  "get_sentence_offsets self file_num =
     (if file_num = 1 then
        offsets_loop (sentence_offsets1 self) (split_nl (content1 self)) 0 0 []
      else if file_num = 2 then
        offsets_loop (sentence_offsets2 self) (split_nl (content2 self)) 0 0 []
      else Inl UnboundLocalError)"

section \<open>aligned_text.py and get_single_output.py: the files of a run\<close>

subsection \<open>Paths and files\<close>

text \<open>
  A path is not a file: the operating system resolves the path given to \<open>open\<close>, and
  \<open>a.txt\<close>, \<open>./a.txt\<close>, an absolute path or a link may all name the same file.  Files
  are numbered; a \<open>resolver\<close> gives the file a path names, and the file system gives
  the text of every file that exists.  \<open>os.path.exists(path)\<close>, \<open>open(path)\<close>,
  \<open>open(path, "a")\<close>, which creates a missing file, and \<open>open(path, "w")\<close> are the
  four uses the code makes of it.  Directories and the other errors of the operating
  system are not modelled.
\<close>

type_synonym file_id = nat

type_synonym resolver = "string \<Rightarrow> file_id"

type_synonym filesystem = "file_id \<rightharpoonup> string"


definition read_file :: "resolver \<Rightarrow> filesystem \<Rightarrow> string \<Rightarrow> pyerror + string" where
  "read_file os fs path = (case fs (os path) of None \<Rightarrow> Inl FileNotFoundError | Some c \<Rightarrow> Inr c)"

definition append_file :: "resolver \<Rightarrow> filesystem \<Rightarrow> string \<Rightarrow> string \<Rightarrow> filesystem" where
  "append_file os fs path s = fs(os path \<mapsto> (case fs (os path) of None \<Rightarrow> [] | Some c \<Rightarrow> c) @ s)"


subsection \<open>The calls into massalign\<close>

text \<open>
  The aligner is the third-party package massalign.  Its code is not in this
  repository, and \<open>TFIDFModel\<close> is handed the two paths: each of its calls is
  therefore a parameter that receives the file system and returns it, changed or not,
  with its result or the exception it raises.  \<open>getParagraphAlignments\<close> stands for
  the construction of the \<open>VicinityDrivenParagraphAligner\<close> from the model and the
  threshold followed by \<open>self.m.getParagraphAlignments\<close>; likewise for sentences.
  The thresholds are floats that the code only passes on.
\<close>

record ('m, 't, 'c, 'pa, 'q, 'sa, 'u) massalign =
  MASSAligner :: "filesystem \<Rightarrow> filesystem \<times> (pyerror + 'm)"
  TFIDFModel :: "filesystem \<Rightarrow> string list \<Rightarrow> string \<Rightarrow> filesystem \<times> (pyerror + 't)"
  getParagraphAlignments :: "filesystem \<Rightarrow> 'm \<Rightarrow> 't \<Rightarrow> 'c \<Rightarrow> string list list \<Rightarrow> string list list
      \<Rightarrow> filesystem \<times> (pyerror + 'pa \<times> ('q \<times> 'q) list)"
  visualizeParagraphAlignments :: "filesystem \<Rightarrow> 'm \<Rightarrow> string list list \<Rightarrow> string list list \<Rightarrow> 'pa
      \<Rightarrow> filesystem \<times> (pyerror + unit)"
  getSentenceAlignments :: "filesystem \<Rightarrow> 'm \<Rightarrow> 't \<Rightarrow> 'c \<Rightarrow> 'c \<Rightarrow> 'q \<Rightarrow> 'q
      \<Rightarrow> filesystem \<times> (pyerror + 'sa \<times> 'u)"
  visualizeSentenceAlignments :: "filesystem \<Rightarrow> 'm \<Rightarrow> 'q \<Rightarrow> 'q \<Rightarrow> 'sa
      \<Rightarrow> filesystem \<times> (pyerror + unit)"

subsection \<open>The constructor of \<open>AlignedText\<close>\<close>

text \<open>
  \<open>read_paragraphs\<close> opens the file for reading and works on its text.  All it does
  to the text (\<open>unicode_normalize\<close>, the textacy pipeline, \<open>strip\<close>, the rewriting for
  file names that start with \<open>np\<close>, and \<open>sentence_tokenize\<close> with spaCy) are functions
  of the text and the path; they are the parameter \<open>sentence_tokenize\<close>, which gives
  the content, the paragraphs and the local sentence spans of each paragraph.
\<close>

type_synonym sentence_tokenizer =
  "string \<Rightarrow> string \<Rightarrow> pyerror + (string \<times> string list list \<times> (nat \<rightharpoonup> span list))"

definition read_paragraphs :: "resolver \<Rightarrow> sentence_tokenizer \<Rightarrow> filesystem \<Rightarrow> string
    \<Rightarrow> pyerror + (string \<times> string list list \<times> (nat \<rightharpoonup> span list))" where
  "read_paragraphs os sentence_tokenize fs file_path =
     (case read_file os fs file_path of
        Inl e \<Rightarrow> Inl e
      | Inr raw \<Rightarrow> sentence_tokenize file_path raw)"

text \<open>\<open>align_pars\<close>: the paragraph alignment, shown when \<open>self.visualize\<close> is set.\<close>

definition align_pars :: "('m, 't, 'c, 'pa, 'q, 'sa, 'u) massalign \<Rightarrow> filesystem \<Rightarrow> 'm \<Rightarrow> 't \<Rightarrow> bool
    \<Rightarrow> string list list \<Rightarrow> string list list \<Rightarrow> 'c
    \<Rightarrow> filesystem \<times> (pyerror + 'pa \<times> ('q \<times> 'q) list)" where
  "align_pars lib fs aligner tfidf visualize p1s p2s min_par_sim =
     (case getParagraphAlignments lib fs aligner tfidf min_par_sim p1s p2s of
        (fs1, Inl e) \<Rightarrow> (fs1, Inl e)
      | (fs1, Inr (par_alignment, aligned_pars)) \<Rightarrow>
          (if visualize then
             (case visualizeParagraphAlignments lib fs1 aligner p1s p2s par_alignment of
                (fs2, Inl e) \<Rightarrow> (fs2, Inl e)
              | (fs2, Inr u) \<Rightarrow> (fs2, Inr (par_alignment, aligned_pars)))
           else (fs1, Inr (par_alignment, aligned_pars))))"

text \<open>\<open>align_sents\<close>: the loop over the aligned paragraphs.\<close>

fun align_sents :: "('m, 't, 'c, 'pa, 'q, 'sa, 'u) massalign \<Rightarrow> filesystem \<Rightarrow> 'm \<Rightarrow> 't \<Rightarrow> bool
    \<Rightarrow> ('q \<times> 'q) list \<Rightarrow> 'c \<Rightarrow> 'c \<Rightarrow> 'sa list \<Rightarrow> filesystem \<times> (pyerror + 'sa list)" where
  "align_sents lib fs aligner tfidf visualize [] min_sent_sim sim_slack all_sent_alignments =
     (fs, Inr all_sent_alignments)"
| "align_sents lib fs aligner tfidf visualize (a # aligned_pars) min_sent_sim sim_slack
       all_sent_alignments =
     (case getSentenceAlignments lib fs aligner tfidf min_sent_sim sim_slack (fst a) (snd a) of
        (fs1, Inl e) \<Rightarrow> (fs1, Inl e)
      | (fs1, Inr (sent_alignment, aligned_sentences)) \<Rightarrow>
          (if visualize then
             (case visualizeSentenceAlignments lib fs1 aligner (fst a) (snd a) sent_alignment of
                (fs2, Inl e) \<Rightarrow> (fs2, Inl e)
              | (fs2, Inr u) \<Rightarrow>
                  align_sents lib fs2 aligner tfidf visualize aligned_pars min_sent_sim sim_slack
                    (all_sent_alignments @ [sent_alignment]))
           else align_sents lib fs1 aligner tfidf visualize aligned_pars min_sent_sim sim_slack
                  (all_sent_alignments @ [sent_alignment])))"

text \<open>
  \<open>AlignedText.__init__\<close>, statement by statement: the newline is appended to
  \<open>file1\<close>; the aligner is made; both files are read; the two offset tables are
  computed; the TF-IDF model is built from the two paths and the stop words; the
  paragraphs and then the sentences are aligned.  The result is the file system as
  the call leaves it, also when it raises, and the fields of the object: the two
  contents with their local spans, \<open>p1s\<close>, \<open>p2s\<close>, \<open>global_offsets1\<close>,
  \<open>global_offsets2\<close>, \<open>par_alignment\<close> and \<open>sent_alignments\<close>.
\<close>

definition AlignedText_init :: "resolver \<Rightarrow> ('m, 't, 'c, 'pa, 'q, 'sa, 'u) massalign
    \<Rightarrow> sentence_tokenizer \<Rightarrow> filesystem \<Rightarrow> string \<Rightarrow> string \<Rightarrow> string \<Rightarrow> bool \<Rightarrow> 'c \<Rightarrow> 'c \<Rightarrow> 'c
    \<Rightarrow> filesystem \<times> (pyerror + aligned_text \<times> string list list \<times> string list list
          \<times> span list \<times> span list \<times> 'pa \<times> 'sa list)" where
  "AlignedText_init os lib sentence_tokenize fs file1 file2 stop_words visualize
       min_par_sim min_sent_sim sim_slack =
     (let fs1 = append_file os fs file1 [CHR 0x0A] in
      case MASSAligner lib fs1 of
        (fs2, Inl e) \<Rightarrow> (fs2, Inl e)
      | (fs2, Inr aligner) \<Rightarrow>
     (case read_paragraphs os sentence_tokenize fs2 file1 of
        Inl e \<Rightarrow> (fs2, Inl e)
      | Inr (c1, p1s, so1) \<Rightarrow>
     (case read_paragraphs os sentence_tokenize fs2 file2 of
        Inl e \<Rightarrow> (fs2, Inl e)
      | Inr (c2, p2s, so2) \<Rightarrow>
     (let self = \<lparr>content1 = c1, content2 = c2, sentence_offsets1 = so1, sentence_offsets2 = so2\<rparr> in
      case get_sentence_offsets self 1 of
        Inl e \<Rightarrow> (fs2, Inl e)
      | Inr global_offsets1 \<Rightarrow>
     (case get_sentence_offsets self 2 of
        Inl e \<Rightarrow> (fs2, Inl e)
      | Inr global_offsets2 \<Rightarrow>
     (case TFIDFModel lib fs2 [file1, file2] stop_words of
        (fs3, Inl e) \<Rightarrow> (fs3, Inl e)
      | (fs3, Inr tfidf) \<Rightarrow>
     (case align_pars lib fs3 aligner tfidf visualize p1s p2s min_par_sim of
        (fs4, Inl e) \<Rightarrow> (fs4, Inl e)
      | (fs4, Inr (par_alignment, aligned_pars)) \<Rightarrow>
     (case align_sents lib fs4 aligner tfidf visualize aligned_pars min_sent_sim sim_slack [] of
        (fs5, Inl e) \<Rightarrow> (fs5, Inl e)
      | (fs5, Inr sent_alignments) \<Rightarrow>
          (fs5, Inr (self, p1s, p2s, global_offsets1, global_offsets2,
                     par_alignment, sent_alignments))))))))))"

subsection \<open>\<open>create_html_file\<close>\<close>


subsection \<open>Concrete stand-ins for the files of a run\<close>

text \<open>
  A directory in which \<open>a.txt\<close> and \<open>./a.txt\<close> name file 0 and every other path
  names file 1; a library that aligns nothing and touches no file; a segmenter that
  takes the stripped text as one paragraph of one sentence.
\<close>

definition same_dir :: resolver where
  "same_dir path = (if path = ''a.txt'' \<or> path = ''./a.txt'' then 0 else 1)"

definition no_alignments :: "(unit, unit, unit, unit, unit, unit, unit) massalign" where
  "no_alignments =
     \<lparr>MASSAligner = (\<lambda>fs. (fs, Inr ())),
      TFIDFModel = (\<lambda>fs files stop_words. (fs, Inr ())),
      getParagraphAlignments = (\<lambda>fs aligner tfidf sim p1s p2s. (fs, Inr ((), []))),
      visualizeParagraphAlignments = (\<lambda>fs aligner p1s p2s al. (fs, Inr ())),
      getSentenceAlignments = (\<lambda>fs aligner tfidf sim slack p1 p2. (fs, Inr ((), ()))),
      visualizeSentenceAlignments = (\<lambda>fs aligner p1 p2 al. (fs, Inr ()))\<rparr>"

definition one_paragraph :: sentence_tokenizer where
  "one_paragraph file_path raw =
     Inr (strip raw, [[strip raw]], [0 \<mapsto> [(0, int (length (strip raw)))]])"

section \<open>Notions used in the statements\<close>

text \<open>
  None of the following is code of the repository: these are the predicates and the
  measures in which the properties below are stated.
\<close>

text \<open>
  The lines of a text that reach \<open>zip(*word_tuples)\<close>: non-blank, with at
  least one token.  The offset list a call returns is the one assigned last.
\<close>

definition token_lines :: "tokenizer \<Rightarrow> string \<Rightarrow> string list" where
  "token_lines nlp text = filter (\<lambda>line. strip line \<noteq> [] \<and> nlp line \<noteq> []) (split_nl text)"

definition last_line_offsets :: "tokenizer \<Rightarrow> string \<Rightarrow> span list" where
  "last_line_offsets nlp text =
     (if token_lines nlp text = [] then [] else map snd (nlp (last (token_lines nlp text))))"

text \<open>
  A text up to its white space: the characters that are not white space, in order.
\<close>

definition unspaced :: "string \<Rightarrow> string" where
  "unspaced s = filter (\<lambda>c. \<not> is_space c) s"

text \<open>
  The tokens of a text in reading order: those of every line that has some, and the
  newline as a last token when the text ends in one.  The normal form of the text has
  every token followed by one boundary marker, and is the lone marker when there is
  no token.
\<close>

definition text_tokens :: "tokenizer \<Rightarrow> string \<Rightarrow> string list" where
  "text_tokens nlp text =
     concat (map (\<lambda>line. map fst (nlp line)) (token_lines nlp text))
       @ (if endswith_nl text then [[CHR 0x0A]] else [])"

definition normalized :: "tokenizer \<Rightarrow> string \<Rightarrow> string" where
  "normalized nlp text =
     (if text_tokens nlp text = [] then '' ''
      else concat (map (\<lambda>w. w @ '' '') (text_tokens nlp text)))"

text \<open>
  A tokenizer is faithful on a text when, on each of its non-blank lines, the tokens
  spell the line up to white space.  spaCy's tokenizer loses no character.
\<close>

definition faithful :: "tokenizer \<Rightarrow> string \<Rightarrow> bool" where
  "faithful nlp text =
     (\<forall>line \<in> set (split_nl text). strip line \<noteq> [] \<longrightarrow>
        unspaced (concat (map fst (nlp line))) = unspaced line)"

text \<open>
  The registry is consistent: every chunk the hash knows sits in the array at the
  symbol the hash gives.
\<close>

definition reg_ok :: "registry \<Rightarrow> bool" where
  "reg_ok reg =
     (\<forall>l k. lineHash reg l = Some k \<longrightarrow> k < length (lineArray reg) \<and> lineArray reg ! k = l)"

text \<open>
  An invariant of the \<open>while\<close> loop of the codec: \<open>G\<close> is a property of the
  unread text that every turn keeps, \<open>P\<close> what it gives for the chunk of the turn,
  whether that is the chunk up to the next space or, when the registry is full, the
  whole unread text.
\<close>

definition loop_inv :: "(string \<Rightarrow> bool) \<Rightarrow> (string \<Rightarrow> bool) \<Rightarrow> bool" where
  "loop_inv G P =
     (G [] \<and> (\<forall>r. G r \<and> r \<noteq> [] \<longrightarrow>
               P (next_line r) \<and> P r \<and> G (drop (length (next_line r)) r)))"

text \<open>
  Words as a tokenizer usually gives them: at least one, none empty, none with a
  space inside.  The text that encodes them is then a sequence of chunks, each a
  word followed by the boundary marker.
\<close>

definition plain_words :: "string list \<Rightarrow> bool" where
  "plain_words ws = (ws \<noteq> [] \<and> (\<forall>w \<in> set ws. w \<noteq> [] \<and> CHR '' '' \<notin> set w))"

definition chunked :: "string \<Rightarrow> bool" where
  "chunked r = (\<exists>ws. (\<forall>w \<in> set ws. w \<noteq> [] \<and> CHR '' '' \<notin> set w) \<and> r = concat (map (\<lambda>w. w @ '' '') ws))"

text \<open>
  An edit script whose equal runs are empty and which has a non-empty deletion and a
  non-empty insertion: at least two runs.
\<close>

definition two_sided :: "(op \<times> 'a list) list \<Rightarrow> bool" where
  "two_sided d =
     ((\<forall>r \<in> set d. fst r = DIFF_EQUAL \<longrightarrow> snd r = [])
      \<and> (\<exists>r \<in> set d. fst r = DIFF_DELETE \<and> snd r \<noteq> [])
      \<and> (\<exists>r \<in> set d. fst r = DIFF_INSERT \<and> snd r \<noteq> [])
      \<and> 2 \<le> length d)"

text \<open>
  The classification in the specification's words: a deletion immediately followed by
  an insertion is merged into one substitution and both runs are passed; every other
  run gives its own record.
\<close>

fun classify_spec :: "op list \<Rightarrow> string list" where
  "classify_spec (DIFF_DELETE # DIFF_INSERT # ts) = ''substitution'' # classify_spec ts"
| "classify_spec (DIFF_DELETE # ts) = ''deletion'' # classify_spec ts"
| "classify_spec (DIFF_INSERT # ts) = ''insertion'' # classify_spec ts"
| "classify_spec (DIFF_EQUAL # ts) = ''same'' # classify_spec ts"
| "classify_spec [] = []"

text \<open>The sentinel fields of a deletion and of an insertion record.\<close>

definition sentinel_ok :: "edit_dict \<Rightarrow> bool" where
  "sentinel_ok e =
     ((edit_type e = ''deletion'' \<longrightarrow> offset2 e = (-1, -1) \<and> text2 e = [])
      \<and> (edit_type e = ''insertion'' \<longrightarrow> offset1 e = (-1, -1) \<and> text1 e = []))"

text \<open>Every edit record of every alignment has its sentinel fields.\<close>

definition all_sentinel_ok :: "edits_json_dict \<Rightarrow> bool" where
  "all_sentinel_ok js = (\<forall>k a. alignments js k = Some a \<longrightarrow> (\<forall>e \<in> set (edits a). sentinel_ok e))"

text \<open>
  What a sentence segmenter gives for the first \<open>n\<close> paragraphs: every list of
  spans is non-empty and ordered by start, and every span starts at 0 or later and
  ends after its start.
\<close>

definition span_list_ok :: "span list \<Rightarrow> bool" where
  "span_list_ok l =
     (l \<noteq> [] \<and> sorted (map fst l) \<and> (\<forall>s \<in> set l. 0 \<le> fst s \<and> fst s < snd s))"

definition local_spans_ok :: "(nat \<rightharpoonup> span list) \<Rightarrow> nat \<Rightarrow> bool" where
  "local_spans_ok sentence_offsets n =
     (\<forall>i < n. \<forall>l. sentence_offsets i = Some l \<longrightarrow> span_list_ok l)"

text \<open>The slots of paragraph \<open>i\<close>: one per sentence, one for a paragraph without any.\<close>

definition slots :: "(nat \<rightharpoonup> span list) \<Rightarrow> nat \<Rightarrow> nat" where
  "slots sentence_offsets i = (case sentence_offsets i of Some l \<Rightarrow> length l | None \<Rightarrow> 1)"

text \<open>The entries of a table that are spans, and those that are the sentinel.\<close>

definition real_spans :: "span list \<Rightarrow> span list" where
  "real_spans table = filter (\<lambda>s. s \<noteq> (-1, -1)) table"

definition sentinels :: "span list \<Rightarrow> span list" where
  "sentinels table = filter (\<lambda>s. s = (-1, -1)) table"

text \<open>
  The table of a document with \<open>n\<close> paragraphs: one entry per slot, one sentinel
  per paragraph without sentences, the other entries ordered by start, each ending
  after its start.
\<close>

definition table_ok :: "(nat \<rightharpoonup> span list) \<Rightarrow> nat \<Rightarrow> span list \<Rightarrow> bool" where
  "table_ok sentence_offsets n table =
     (length table = sum_list (map (slots sentence_offsets) [0..<n])
      \<and> length (sentinels table) = length (filter (\<lambda>i. sentence_offsets i = None) [0..<n])
      \<and> sorted (map fst (real_spans table))
      \<and> (\<forall>s \<in> set (real_spans table). fst s < snd s))"


section \<open>Properties of the symbol codec\<close>

lemma take_drop_min: "take n xs @ drop (min (length xs) n) xs = xs"
  by (cases "n \<le> length xs") (simp_all add: min_def)

lemma next_line_prefix: "next_line rest @ drop (length (next_line rest)) rest = rest"
  by (simp add: next_line_def find_space_def take_drop_min)

lemma reg_ok_registry0: "reg_ok registry0"
  by (simp add: reg_ok_def registry0_def)

lemma munge_step_props:
  assumes ok: "reg_ok reg" and len: "length (lineArray reg) \<le> m" and m: "m \<le> 1114111"
    and ne: "rest \<noteq> []"
  shows "\<exists>c reg' rest' ext. munge_step m reg rest = Inr (c, reg', rest') \<and> reg_ok reg'
           \<and> lineArray reg' = lineArray reg @ ext \<and> c < length (lineArray reg')
           \<and> (lineArray reg' ! c = next_line rest \<and> rest' = drop (length (next_line rest)) rest
                \<or> lineArray reg' ! c = rest \<and> rest' = [])
           \<and> (lineHash reg (next_line rest) = None \<longrightarrow> c = length (lineArray reg))
           \<and> (rest' \<noteq> [] \<longrightarrow> length (lineArray reg') \<le> m)
           \<and> length (lineArray reg') \<le> Suc m"
proof (cases "lineHash reg (next_line rest)")
  case (Some k)
  with ok have k: "k < length (lineArray reg)" "lineArray reg ! k = next_line rest"
    by (auto simp: reg_ok_def)
  with len m have "chr_py k = Inr k" by (simp add: chr_py_def)
  with Some k ok len show ?thesis
    by (simp add: munge_step_def Let_def)
next
  case None
  let ?bail = "length (lineArray reg) = m"
  let ?line = "if ?bail then rest else next_line rest"
  let ?arr = "lineArray reg @ [?line]"
  let ?reg = "\<lparr>lineArray = ?arr, lineHash = (lineHash reg)(?line \<mapsto> length ?arr - 1)\<rparr>"
  have chr: "chr_py (length ?arr - 1) = Inr (length (lineArray reg))"
    using len m by (simp add: chr_py_def)
  have ok': "reg_ok ?reg"
    using ok by (fastforce simp: reg_ok_def nth_append)
  have step: "munge_step m reg rest =
      Inr (length (lineArray reg), ?reg, if ?bail then [] else drop (length (next_line rest)) rest)"
    using None chr by (simp add: munge_step_def Let_def)
  show ?thesis
    unfolding step using ok' len by auto
qed

lemma loop_inv_True: "loop_inv (\<lambda>r. True) (\<lambda>l. True)"
  by (simp add: loop_inv_def)

text \<open>
  The loop returns, and decoding the symbols it appended gives back the text it read.
\<close>

lemma munge_loop_props:
  assumes "reg_ok reg" and "rest \<noteq> [] \<longrightarrow> length (lineArray reg) \<le> m"
    and "length (lineArray reg) \<le> Suc m" and "m \<le> 1114111"
    and "loop_inv G P" and "G rest"
  shows "\<exists>cs reg' ext. munge_loop m reg rest chars = Inr (chars @ cs, reg') \<and> reg_ok reg'
           \<and> lineArray reg' = lineArray reg @ ext
           \<and> (\<forall>c \<in> set cs. c < length (lineArray reg') \<and> P (lineArray reg' ! c))
           \<and> concat (map (\<lambda>c. lineArray reg' ! c) cs) = rest
           \<and> (rest \<noteq> [] \<and> next_line rest = rest \<longrightarrow> length cs = 1)
           \<and> (rest \<noteq> [] \<and> lineHash reg (next_line rest) = None \<longrightarrow>
                 hd cs = length (lineArray reg))
           \<and> length (lineArray reg') \<le> Suc m"
  using assms(1-4,6)
proof (induction m reg rest chars rule: munge_loop.induct)
  case (1 m reg rest chars)
  have inv: "P (next_line r) \<and> P r \<and> G (drop (length (next_line r)) r)"
    if "G r" "r \<noteq> []" for r
    using assms(5) that by (simp add: loop_inv_def)
  have Gnil: "G []" using assms(5) by (simp add: loop_inv_def)
  show ?case
  proof (cases "rest = []")
    case True
    with "1.prems" show ?thesis by (simp add: munge_loop.simps)
  next
    case False
    with "1.prems" have len: "length (lineArray reg) \<le> m" by simp
    from munge_step_props [OF "1.prems"(1) len "1.prems"(4) False]
    obtain c reg1 rest1 ext1 where
      st: "munge_step m reg rest = Inr (c, reg1, rest1)" and ok1: "reg_ok reg1"
      and arr1: "lineArray reg1 = lineArray reg @ ext1" and c: "c < length (lineArray reg1)"
      and alt: "lineArray reg1 ! c = next_line rest \<and> rest1 = drop (length (next_line rest)) rest
                \<or> lineArray reg1 ! c = rest \<and> rest1 = []"
      and fresh: "lineHash reg (next_line rest) = None \<longrightarrow> c = length (lineArray reg)"
      and l1: "rest1 \<noteq> [] \<longrightarrow> length (lineArray reg1) \<le> m"
      and l2: "length (lineArray reg1) \<le> Suc m"
      by (elim exE conjE) (rule that)
    from alt have dec1: "lineArray reg1 ! c @ rest1 = rest"
      using next_line_prefix [of rest] by auto
    from alt inv [OF "1.prems"(5) False] Gnil
    have Pc: "P (lineArray reg1 ! c)" and G1: "G rest1" by auto
    from alt have single: "next_line rest = rest \<longrightarrow> rest1 = []" by auto
    from "1.IH" [OF False st refl refl ok1 l1 l2 "1.prems"(4) G1]
    obtain cs reg' ext where
      lp: "munge_loop m reg1 rest1 (chars @ [c]) = Inr ((chars @ [c]) @ cs, reg')"
      and ok': "reg_ok reg'" and arr': "lineArray reg' = lineArray reg1 @ ext"
      and cs: "\<forall>c \<in> set cs. c < length (lineArray reg') \<and> P (lineArray reg' ! c)"
      and dec: "concat (map (\<lambda>c. lineArray reg' ! c) cs) = rest1"
      and l': "length (lineArray reg') \<le> Suc m"
      by (elim exE conjE) (rule that)
    have nil: "rest1 = [] \<longrightarrow> cs = []"
      using lp by (auto simp: munge_loop.simps [of m reg1 "[]"])
    have "munge_loop m reg rest chars = Inr (chars @ (c # cs), reg')"
      using False st lp by (simp add: munge_loop.simps [of m reg rest])
    moreover have "lineArray reg' ! c = lineArray reg1 ! c"
      using arr' c by (simp add: nth_append)
    ultimately show ?thesis
      using ok' arr' arr1 cs dec dec1 l' c Pc single nil fresh
      by (intro exI [of _ "c # cs"] exI [of _ reg'] exI [of _ "ext1 @ ext"]) auto
  qed
qed

subsection \<open>Both calls of the codec return\<close>

lemma collect_words_eq:
  "collect_words nlp lines words offs =
     (words @ concat (map (\<lambda>l. map fst (nlp l)) (filter (\<lambda>line. strip line \<noteq> [] \<and> nlp line \<noteq> []) lines)),
      (if filter (\<lambda>line. strip line \<noteq> [] \<and> nlp line \<noteq> []) lines = [] then offs
       else map snd (nlp (last (filter (\<lambda>line. strip line \<noteq> [] \<and> nlp line \<noteq> []) lines)))))"
proof (induction lines arbitrary: words offs)
  case Nil
  then show ?case by simp
next
  case (Cons line lines)
  then show ?case
    by (simp add: Let_def)
qed

lemma munge_props:
  assumes "reg_ok reg" and "length (lineArray reg) \<le> m" and "m \<le> 1114111"
    and "loop_inv G P" and "G (munged_text nlp text)"
  shows "\<exists>cs reg' ext. diff_linesToCharsMunge nlp m reg text = Inr (cs, snd (text_words nlp text), reg')
           \<and> reg_ok reg' \<and> lineArray reg' = lineArray reg @ ext
           \<and> (\<forall>c \<in> set cs. c < length (lineArray reg') \<and> P (lineArray reg' ! c))
           \<and> concat (map (\<lambda>c. lineArray reg' ! c) cs) = munged_text nlp text
           \<and> (next_line (munged_text nlp text) = munged_text nlp text \<longrightarrow> length cs = 1)
           \<and> (lineHash reg (next_line (munged_text nlp text)) = None \<longrightarrow>
                 hd cs = length (lineArray reg))
           \<and> length (lineArray reg') \<le> Suc m"
proof -
  obtain words offs where tw: "text_words nlp text = (words, offs)"
    by (cases "text_words nlp text")
  then have mt: "munged_text nlp text = join_sp words @ '' ''"
    by (simp add: munged_text_def)
  have ne: "join_sp words @ '' '' \<noteq> []" by simp
  from munge_loop_props [of reg "join_sp words @ '' ''" m G P "[]"] assms
  obtain cs reg' ext where
    "munge_loop m reg (join_sp words @ '' '') [] = Inr (cs, reg')" "reg_ok reg'"
    "lineArray reg' = lineArray reg @ ext"
    "\<forall>c \<in> set cs. c < length (lineArray reg') \<and> P (lineArray reg' ! c)"
    "concat (map (\<lambda>c. lineArray reg' ! c) cs) = join_sp words @ '' ''"
    "next_line (join_sp words @ '' '') = join_sp words @ '' '' \<longrightarrow> length cs = 1"
    "lineHash reg (next_line (join_sp words @ '' '')) = None \<longrightarrow> hd cs = length (lineArray reg)"
    "length (lineArray reg') \<le> Suc m"
    unfolding mt using ne by auto
  then show ?thesis
    using tw by (auto simp: diff_linesToCharsMunge_def mt)
qed

text \<open>
  With the registry that \<open>diff_wordsToChars\<close> starts from, neither call can reach
  the bound of \<open>chr\<close>: the first stops at 666667 entries, the second at 1114112.
\<close>

lemma diff_wordsToChars_props:
  assumes "loop_inv G1 P1" and "G1 (munged_text nlp t1)"
    and "loop_inv G2 P2" and "G2 (munged_text nlp t2)"
  shows "\<exists>c1 c2 arr. diff_wordsToChars nlp t1 t2 =
       Inr (c1, c2, arr, (snd (text_words nlp t1), snd (text_words nlp t2)))
     \<and> (\<forall>c \<in> set c1. c < length arr \<and> P1 (arr ! c))
     \<and> (\<forall>c \<in> set c2. c < length arr \<and> P2 (arr ! c))
     \<and> concat (map (\<lambda>c. arr ! c) c1) = munged_text nlp t1
     \<and> concat (map (\<lambda>c. arr ! c) c2) = munged_text nlp t2
     \<and> (next_line (munged_text nlp t1) = munged_text nlp t1 \<longrightarrow> c1 = [1])
     \<and> (next_line (munged_text nlp t2) = munged_text nlp t2 \<longrightarrow> length c2 = 1)"
proof -
  have l0: "length (lineArray registry0) \<le> 666666" by (simp add: registry0_def)
  have m0: "(666666::nat) \<le> 1114111" by simp
  from munge_props [OF reg_ok_registry0 l0 m0 assms(1) assms(2)]
  obtain c1 reg1 where
    m1: "diff_linesToCharsMunge nlp 666666 registry0 t1 = Inr (c1, snd (text_words nlp t1), reg1)"
    and ok1: "reg_ok reg1"
    and in1: "\<forall>c \<in> set c1. c < length (lineArray reg1) \<and> P1 (lineArray reg1 ! c)"
    and dec1: "concat (map (\<lambda>c. lineArray reg1 ! c) c1) = munged_text nlp t1"
    and one1: "next_line (munged_text nlp t1) = munged_text nlp t1 \<longrightarrow> length c1 = 1"
    and hd1: "lineHash registry0 (next_line (munged_text nlp t1)) = None \<longrightarrow>
                hd c1 = length (lineArray registry0)"
    and len1: "length (lineArray reg1) \<le> Suc 666666"
    by (elim exE conjE) (rule that)
  have len1': "length (lineArray reg1) \<le> 1114111" using len1 by simp
  from munge_props [OF ok1 len1' order_refl assms(3) assms(4)]
  obtain c2 reg2 ext2 where
    m2: "diff_linesToCharsMunge nlp 1114111 reg1 t2 = Inr (c2, snd (text_words nlp t2), reg2)"
    and arr2: "lineArray reg2 = lineArray reg1 @ ext2"
    and in2: "\<forall>c \<in> set c2. c < length (lineArray reg2) \<and> P2 (lineArray reg2 ! c)"
    and dec2: "concat (map (\<lambda>c. lineArray reg2 ! c) c2) = munged_text nlp t2"
    and one2: "next_line (munged_text nlp t2) = munged_text nlp t2 \<longrightarrow> length c2 = 1"
    by (elim exE conjE) (rule that)
  have same: "\<forall>c \<in> set c1. lineArray reg2 ! c = lineArray reg1 ! c"
    using in1 arr2 by (simp add: nth_append)
  then have "map (\<lambda>c. lineArray reg2 ! c) c1 = map (\<lambda>c. lineArray reg1 ! c) c1"
    by simp
  then have dec1': "concat (map (\<lambda>c. lineArray reg2 ! c) c1) = munged_text nlp t1"
    using dec1 by (simp only:)
  have "hd c1 = 1" using hd1 by (simp add: registry0_def)
  then have one1': "next_line (munged_text nlp t1) = munged_text nlp t1 \<longrightarrow> c1 = [1]"
    using one1 by (cases c1) auto
  have "diff_wordsToChars nlp t1 t2 =
      Inr (c1, c2, lineArray reg2, (snd (text_words nlp t1), snd (text_words nlp t2)))"
    using m1 m2 by (simp add: diff_wordsToChars_def)
  moreover have "\<forall>c \<in> set c1. c < length (lineArray reg2) \<and> P1 (lineArray reg2 ! c)"
    using in1 arr2 same by auto
  ultimately show ?thesis
    using dec1' dec2 one1' one2 in2 by blast
qed

lemma diff_wordsToChars_total:
  "\<exists>c1 c2 arr. diff_wordsToChars nlp t1 t2 =
       Inr (c1, c2, arr, (snd (text_words nlp t1), snd (text_words nlp t2)))
     \<and> (\<forall>c \<in> set c1 \<union> set c2. c < length arr)
     \<and> concat (map (\<lambda>c. arr ! c) c1) = munged_text nlp t1
     \<and> concat (map (\<lambda>c. arr ! c) c2) = munged_text nlp t2
     \<and> (next_line (munged_text nlp t1) = munged_text nlp t1 \<longrightarrow> c1 = [1])
     \<and> (next_line (munged_text nlp t2) = munged_text nlp t2 \<longrightarrow> length c2 = 1)"
proof -
  from diff_wordsToChars_props [OF loop_inv_True _ loop_inv_True, of nlp t1 t2]
  obtain c1 c2 arr where
    "diff_wordsToChars nlp t1 t2 =
       Inr (c1, c2, arr, (snd (text_words nlp t1), snd (text_words nlp t2)))"
    "\<forall>c \<in> set c1. c < length arr" "\<forall>c \<in> set c2. c < length arr"
    "concat (map (\<lambda>c. arr ! c) c1) = munged_text nlp t1"
    "concat (map (\<lambda>c. arr ! c) c2) = munged_text nlp t2"
    "next_line (munged_text nlp t1) = munged_text nlp t1 \<longrightarrow> c1 = [1]"
    "next_line (munged_text nlp t2) = munged_text nlp t2 \<longrightarrow> length c2 = 1"
    by auto
  then show ?thesis by blast
qed

lemma text_words_eq:
  "text_words nlp text =
     (concat (map (\<lambda>l. map fst (nlp l)) (token_lines nlp text))
        @ (if endswith_nl text then [[CHR 0x0A]] else []),
      last_line_offsets nlp text)"
  by (simp add: text_words_def collect_words_eq token_lines_def last_line_offsets_def)

lemma concat_longer_than_last:
  assumes "2 \<le> length xs" and "\<forall>x \<in> set xs. f x \<noteq> []"
  shows "length (f (last xs)) < length (concat (map f xs))"
proof -
  from assms(1) have ne: "xs \<noteq> []" by auto
  then have xs: "xs = butlast xs @ [last xs]" by simp
  from assms(1) have "butlast xs \<noteq> []" by (cases xs) auto
  then obtain y ys where b: "butlast xs = y # ys" by (cases "butlast xs") auto
  then have "y \<in> set xs" by (metis in_set_butlastD list.set_intros(1))
  with assms(2) have "f y \<noteq> []" by blast
  then have "0 < length (concat (map f (butlast xs)))" using b by simp
  moreover have "concat (map f xs) = concat (map f (butlast xs)) @ f (last xs)"
    by (subst xs) simp
  ultimately show ?thesis by simp
qed

lemma offsets_shorter:
  assumes "2 \<le> length (token_lines nlp text)"
  shows "last_line_offsets nlp text = map snd (nlp (last (token_lines nlp text)))"
    and "length (last_line_offsets nlp text) < length (fst (text_words nlp text))"
proof -
  let ?tl = "token_lines nlp text"
  from assms have ne: "?tl \<noteq> []" by auto
  then show eq: "last_line_offsets nlp text = map snd (nlp (last ?tl))"
    by (simp add: last_line_offsets_def)
  have "\<forall>l \<in> set ?tl. nlp l \<noteq> []" by (simp add: token_lines_def)
  from concat_longer_than_last [OF assms this]
  have "length (nlp (last ?tl)) < length (concat (map nlp ?tl))" .
  also have "\<dots> = length (concat (map (\<lambda>l. map fst (nlp l)) ?tl))"
    by (simp add: length_concat comp_def)
  finally show "length (last_line_offsets nlp text) < length (fst (text_words nlp text))"
    by (simp add: eq text_words_eq)
qed

subsection \<open>The text the symbols encode, against the text\<close>

lemma join_sp_concat: "ws \<noteq> [] \<Longrightarrow> join_sp ws @ '' '' = concat (map (\<lambda>w. w @ '' '') ws)"
  by (induction ws rule: join_sp.induct) auto

lemma fst_text_words: "fst (text_words nlp text) = text_tokens nlp text"
  by (simp add: text_words_eq text_tokens_def)

lemma munged_text_normalized: "munged_text nlp text = normalized nlp text"
proof (cases "text_tokens nlp text = []")
  case True
  then show ?thesis by (simp add: munged_text_def normalized_def fst_text_words)
next
  case False
  then show ?thesis
    by (simp add: munged_text_def normalized_def fst_text_words join_sp_concat)
qed

lemma unspaced_concat: "unspaced (concat xs) = concat (map unspaced xs)"
  by (induction xs) (simp_all add: unspaced_def)

lemma unspaced_append: "unspaced (a @ b) = unspaced a @ unspaced b"
  by (simp add: unspaced_def)

lemma unspaced_concat_concat:
  "unspaced (concat (concat (map g xs))) = concat (map (\<lambda>x. unspaced (concat (g x))) xs)"
  by (induction xs) (simp_all add: unspaced_append, simp add: unspaced_def)

lemma unspaced_marked: "unspaced (concat (map (\<lambda>w. w @ '' '') ws)) = unspaced (concat ws)"
  by (induction ws) (simp_all add: unspaced_def is_space_def)

lemma split_nl_nonempty: "split_nl s \<noteq> []"
  by (induction s) (auto split: list.splits)

lemma unspaced_split_nl: "concat (map unspaced (split_nl s)) = unspaced s"
proof (induction s)
  case Nil
  then show ?case by (simp add: unspaced_def)
next
  case (Cons c cs)
  then show ?case
    using split_nl_nonempty [of cs]
    by (cases "split_nl cs") (auto simp: unspaced_def is_space_def)
qed

lemma strip_empty_unspaced:
  assumes "strip l = []"
  shows "unspaced l = []"
proof -
  from assms have "dropWhile is_space (rev (dropWhile is_space l)) = []" by (simp add: strip_def)
  then have a: "\<forall>c \<in> set (dropWhile is_space l). is_space c"
    by (simp add: dropWhile_eq_Nil_conv)
  have "dropWhile is_space l = []"
  proof (rule ccontr)
    assume n: "dropWhile is_space l \<noteq> []"
    then have "\<not> is_space (hd (dropWhile is_space l))" by (rule hd_dropWhile)
    moreover from n have "hd (dropWhile is_space l) \<in> set (dropWhile is_space l)" by simp
    ultimately show False using a by blast
  qed
  then show ?thesis by (simp add: unspaced_def dropWhile_eq_Nil_conv filter_empty_conv)
qed

lemma concat_map_filter_skip:
  "(\<forall>x \<in> set xs. \<not> P x \<longrightarrow> f x = []) \<Longrightarrow> concat (map f (filter P xs)) = concat (map f xs)"
  by (induction xs) auto

lemma unspaced_normalized:
  assumes "faithful nlp text"
  shows "unspaced (normalized nlp text) = unspaced text"
proof -
  let ?tl = "token_lines nlp text"
  have f: "\<forall>l \<in> set (split_nl text). strip l \<noteq> [] \<longrightarrow>
             unspaced (concat (map fst (nlp l))) = unspaced l"
    using assms by (simp add: faithful_def)
  have skip: "\<forall>l \<in> set (split_nl text). \<not> (strip l \<noteq> [] \<and> nlp l \<noteq> []) \<longrightarrow> unspaced l = []"
  proof (intro ballI impI)
    fix l assume l: "l \<in> set (split_nl text)" and n: "\<not> (strip l \<noteq> [] \<and> nlp l \<noteq> [])"
    show "unspaced l = []"
    proof (cases "strip l = []")
      case True
      then show ?thesis by (rule strip_empty_unspaced)
    next
      case False
      with n have e: "nlp l = []" by simp
      from f l False have "unspaced (concat (map fst (nlp l))) = unspaced l" by blast
      with e show ?thesis by (simp add: unspaced_def)
    qed
  qed
  have toks: "unspaced (concat (text_tokens nlp text)) = unspaced text"
  proof -
    have nl: "unspaced (concat (if endswith_nl text then [[CHR 0x0A]] else [])) = []"
      by (simp add: unspaced_def is_space_def)
    have "unspaced (concat (text_tokens nlp text))
            = unspaced (concat (concat (map (\<lambda>l. map fst (nlp l)) ?tl)))"
      unfolding text_tokens_def concat_append unspaced_append nl by simp
    also have "\<dots> = concat (map (\<lambda>l. unspaced (concat (map fst (nlp l)))) ?tl)"
      by (rule unspaced_concat_concat)
    also have "\<dots> = concat (map unspaced ?tl)"
    proof -
      have "\<forall>l \<in> set ?tl. unspaced (concat (map fst (nlp l))) = unspaced l"
        using f by (simp add: token_lines_def)
      then have "map (\<lambda>l. unspaced (concat (map fst (nlp l)))) ?tl = map unspaced ?tl"
        by simp
      then show ?thesis by (simp only:)
    qed
    also have "\<dots> = concat (map unspaced (split_nl text))"
      unfolding token_lines_def by (rule concat_map_filter_skip [OF skip])
    also have "\<dots> = unspaced text" by (rule unspaced_split_nl)
    finally show ?thesis .
  qed
  show ?thesis
  proof (cases "text_tokens nlp text = []")
    case True
    with toks have "unspaced text = []" by (simp add: unspaced_def)
    with True show ?thesis by (simp add: normalized_def unspaced_def is_space_def)
  next
    case False
    then show ?thesis by (simp add: normalized_def unspaced_marked toks)
  qed
qed

subsection \<open>Decoding a valid edit script\<close>

lemma decode_chars_ok:
  "\<forall>c \<in> set cs. c < length arr \<Longrightarrow> decode_chars arr cs = Inr (concat (map (\<lambda>c. arr ! c) cs))"
  by (induction cs) auto

lemma diff_charsToLines_ok:
  "\<forall>r \<in> set diffs. \<forall>c \<in> set (snd r). c < length arr \<Longrightarrow>
   diff_charsToLines diffs arr = Inr (map (\<lambda>r. (fst r, concat (map (\<lambda>c. arr ! c) (snd r)))) diffs)"
  by (induction diffs arr rule: diff_charsToLines.induct) (auto simp: decode_chars_ok)

lemma diff_text1_decoded:
  "diff_text1 (map (\<lambda>r. (fst r, concat (map f (snd r)))) diffs) = concat (map f (diff_text1 diffs))"
  by (induction diffs) (auto simp: diff_text1_def)

lemma diff_text2_decoded:
  "diff_text2 (map (\<lambda>r. (fst r, concat (map f (snd r)))) diffs) = concat (map f (diff_text2 diffs))"
  by (induction diffs) (auto simp: diff_text2_def)

lemma valid_diff_symbols:
  assumes "valid_diff diffs a b" and "r \<in> set diffs"
  shows "set (snd r) \<subseteq> set a \<union> set b"
proof (cases "fst r = DIFF_INSERT")
  case True
  then have "fst r \<noteq> DIFF_DELETE" by simp
  with assms(2) have "set (snd r) \<subseteq> set (diff_text2 diffs)"
    by (auto simp: diff_text2_def)
  with assms(1) show ?thesis by (auto simp: valid_diff_def)
next
  case False
  with assms(2) have "set (snd r) \<subseteq> set (diff_text1 diffs)"
    by (auto simp: diff_text1_def)
  with assms(1) show ?thesis by (auto simp: valid_diff_def)
qed

lemma diff_wordMode_props:
  assumes valid: "\<forall>a b. valid_diff (dmp a b) a b"
    and w: "diff_wordsToChars nlp txt1 txt2 = Inr (c1, c2, arr, offsets)"
    and rng: "\<forall>c \<in> set c1 \<union> set c2. c < length arr"
  shows "diff_wordMode dmp nlp txt1 txt2 =
           Inr (map (\<lambda>r. (fst r, concat (map (\<lambda>c. arr ! c) (snd r)))) (dmp c1 c2), dmp c1 c2, offsets)"
proof -
  have "\<forall>r \<in> set (dmp c1 c2). \<forall>c \<in> set (snd r). c < length arr"
    using valid_diff_symbols [of "dmp c1 c2" c1 c2] valid rng by blast
  from diff_charsToLines_ok [OF this] w show ?thesis
    by (simp add: diff_wordMode_def Let_def)
qed

subsection \<open>The stand-in edit script is valid; evaluating the loop\<close>

lemma common_prefix_take: "common_prefix a b = take (length (common_prefix a b)) a"
  by (induction a b rule: common_prefix.induct) auto

lemma common_prefix_take2: "common_prefix a b = take (length (common_prefix a b)) b"
  by (induction a b rule: common_prefix.induct) auto

lemma common_suffix_drop:
  "rev (common_prefix (rev a) (rev b)) = drop (length a - length (common_prefix (rev a) (rev b))) a"
proof -
  have "rev (common_prefix (rev a) (rev b)) = rev (take (length (common_prefix (rev a) (rev b))) (rev a))"
    using common_prefix_take [of "rev a" "rev b"] by simp
  then show ?thesis by (simp add: take_rev)
qed

lemma common_suffix_drop2:
  "rev (common_prefix (rev a) (rev b)) = drop (length b - length (common_prefix (rev a) (rev b))) b"
proof -
  have "rev (common_prefix (rev a) (rev b)) = rev (take (length (common_prefix (rev a) (rev b))) (rev b))"
    using common_prefix_take2 [of "rev a" "rev b"] by simp
  then show ?thesis by (simp add: take_rev)
qed

lemma trim_diff_valid: "valid_diff (trim_diff a b) a b"
proof -
  define p where "p = common_prefix a b"
  define a1 where "a1 = drop (length p) a"
  define b1 where "b1 = drop (length p) b"
  define s where "s = rev (common_prefix (rev a1) (rev b1))"
  have a: "a = p @ a1" unfolding a1_def p_def using common_prefix_take [of a b]
    by (metis append_take_drop_id)
  have b: "b = p @ b1" unfolding b1_def p_def using common_prefix_take2 [of a b]
    by (metis append_take_drop_id)
  have sa: "s = drop (length a1 - length s) a1"
    unfolding s_def using common_suffix_drop [of a1 b1] by simp
  have sb: "s = drop (length b1 - length s) b1"
    unfolding s_def using common_suffix_drop2 [of a1 b1] by simp
  have a1: "a1 = take (length a1 - length s) a1 @ s"
    using sa by (metis append_take_drop_id)
  have b1: "b1 = take (length b1 - length s) b1 @ s"
    using sb by (metis append_take_drop_id)
  have td: "trim_diff a b = run DIFF_EQUAL p @ run DIFF_DELETE (take (length a1 - length s) a1)
      @ run DIFF_INSERT (take (length b1 - length s) b1) @ run DIFF_EQUAL s @ []"
    by (simp add: trim_diff_def Let_def p_def a1_def b1_def s_def)
  have "diff_text1 (trim_diff a b) = p @ take (length a1 - length s) a1 @ s"
    unfolding td by (simp add: diff_text1_def run_def)
  moreover have "diff_text2 (trim_diff a b) = p @ take (length b1 - length s) b1 @ s"
    unfolding td by (simp add: diff_text2_def run_def)
  ultimately show ?thesis
    using a a1 b b1 by (simp add: valid_diff_def)
qed

lemma munge_loop_Nil: "munge_loop maxLines reg [] chars = Inr (chars, reg)"
  by (simp add: munge_loop.simps)

lemma munge_loop_Cons:
  "munge_loop maxLines reg (x # xs) chars =
     (case munge_step maxLines reg (x # xs) of
        Inl e \<Rightarrow> Inl e
      | Inr (c, reg', rest') \<Rightarrow> munge_loop maxLines reg' rest' (chars @ [c]))"
  by (simp add: munge_loop.simps [of _ _ "x # xs"])

lemmas munge_eval = munge_loop_Nil munge_loop_Cons munge_step_def next_line_def find_space_def
  chr_py_def diff_linesToCharsMunge_def diff_wordsToChars_def registry0_def Let_def

lemma ex_tw: "text_words ws_tokenize ''a b'' = ([''a'', ''b''], [(0, 1), (2, 3)])"
  "text_words ws_tokenize ''a c'' = ([''a'', ''c''], [(0, 1), (2, 3)])"
  by code_simp+

lemma ex_w2c: "diff_wordsToChars ws_tokenize ''a b'' ''a c'' = Inr ([1, 2], [1, 3], ['''', ''a '', ''b '', ''c ''], ([(0, 1), (2, 3)], [(0, 1), (2, 3)]))"
  by (simp add: munge_eval ex_tw)

subsection \<open>Two tests of the repository\<close>

text \<open>
  \<open>test_deletes\<close> and \<open>test_substitutes\<close> of \<open>tests/test_find_diffs.py\<close>, on the
  embedding: the decoded runs are the ones the tests expect.
\<close>

lemma ex_test_words1: "text_words ws_tokenize ''Deletion in the middle''
   = ([''Deletion'', ''in'', ''the'', ''middle''], [(0, 8), (9, 11), (12, 15), (16, 22)])"
  "text_words ws_tokenize ''Deletion in middle''
   = ([''Deletion'', ''in'', ''middle''], [(0, 8), (9, 11), (12, 18)])"
  by code_simp+

lemma test_delete_in_the_middle:
  "diff_wordMode trim_diff ws_tokenize ''Deletion in the middle'' ''Deletion in middle''
   = Inr ([(DIFF_EQUAL, ''Deletion in ''), (DIFF_DELETE, ''the ''), (DIFF_EQUAL, ''middle '')],
          [(DIFF_EQUAL, [1, 2]), (DIFF_DELETE, [3]), (DIFF_EQUAL, [4])],
          ([(0, 8), (9, 11), (12, 15), (16, 22)], [(0, 8), (9, 11), (12, 18)]))"
  by (simp add: diff_wordMode_def munge_eval ex_test_words1 trim_diff_def run_def)

lemma ex_test_words2: "text_words ws_tokenize ''Now this is another sub''
   = ([''Now'', ''this'', ''is'', ''another'', ''sub''], [(0, 3), (4, 8), (9, 11), (12, 19), (20, 23)])"
  "text_words ws_tokenize ''Now this is another lam''
   = ([''Now'', ''this'', ''is'', ''another'', ''lam''], [(0, 3), (4, 8), (9, 11), (12, 19), (20, 23)])"
  by code_simp+

lemma test_substitute_at_the_end:
  "diff_wordMode trim_diff ws_tokenize ''Now this is another sub'' ''Now this is another lam''
   = Inr ([(DIFF_EQUAL, ''Now this is another ''), (DIFF_DELETE, ''sub ''), (DIFF_INSERT, ''lam '')],
          [(DIFF_EQUAL, [1, 2, 3, 4]), (DIFF_DELETE, [5]), (DIFF_INSERT, [6])],
          ([(0, 3), (4, 8), (9, 11), (12, 19), (20, 23)], [(0, 3), (4, 8), (9, 11), (12, 19), (20, 23)]))"
  by (simp add: diff_wordMode_def munge_eval ex_test_words2 trim_diff_def run_def)

subsection \<open>C1: round trip\<close>

text \<open>
  C1.  For every \<open>diff_main\<close> that meets its contract (the runs other than
  insertions spell the first symbol string, the runs other than deletions the second),
  \<open>diff_wordMode\<close> returns, and the decoded texts of its equal and deleted runs,
  concatenated in order, are the normal form of txt1: the tokens of its lines that
  have tokens, in order, each followed by one boundary marker, with the newline as a
  last token when txt1 ends in one.  The equal and inserted runs give the normal form
  of txt2.  When the tokenizer is faithful on a text, the concatenation is the text
  itself up to white space: it has the same characters other than white space, in the
  same order.
\<close>

theorem C1_round_trip:
  assumes "\<forall>a b. valid_diff (dmp a b) a b"
  shows "\<exists>diff char_diff offsets.
           diff_wordMode dmp nlp txt1 txt2 = Inr (diff, char_diff, offsets)
           \<and> diff_text1 diff = normalized nlp txt1
           \<and> diff_text2 diff = normalized nlp txt2
           \<and> (faithful nlp txt1 \<longrightarrow> unspaced (diff_text1 diff) = unspaced txt1)
           \<and> (faithful nlp txt2 \<longrightarrow> unspaced (diff_text2 diff) = unspaced txt2)"
proof -
  from diff_wordsToChars_total [of nlp txt1 txt2]
  obtain c1 c2 arr where
    w: "diff_wordsToChars nlp txt1 txt2 =
          Inr (c1, c2, arr, (snd (text_words nlp txt1), snd (text_words nlp txt2)))"
    and rng: "\<forall>c \<in> set c1 \<union> set c2. c < length arr"
    and d1: "concat (map (\<lambda>c. arr ! c) c1) = munged_text nlp txt1"
    and d2: "concat (map (\<lambda>c. arr ! c) c2) = munged_text nlp txt2"
    by (elim exE conjE) (rule that)
  from assms have v: "diff_text1 (dmp c1 c2) = c1" "diff_text2 (dmp c1 c2) = c2"
    by (simp_all add: valid_diff_def)
  let ?diff = "map (\<lambda>r. (fst r, concat (map (\<lambda>c. arr ! c) (snd r)))) (dmp c1 c2)"
  have r: "diff_wordMode dmp nlp txt1 txt2
             = Inr (?diff, dmp c1 c2, (snd (text_words nlp txt1), snd (text_words nlp txt2)))"
    by (rule diff_wordMode_props [OF assms w rng])
  have t1: "diff_text1 ?diff = normalized nlp txt1"
    by (simp add: diff_text1_decoded v d1 munged_text_normalized)
  have t2: "diff_text2 ?diff = normalized nlp txt2"
    by (simp add: diff_text2_decoded v d2 munged_text_normalized)
  have u1: "faithful nlp txt1 \<longrightarrow> unspaced (diff_text1 ?diff) = unspaced txt1"
    unfolding t1 by (simp add: unspaced_normalized)
  have u2: "faithful nlp txt2 \<longrightarrow> unspaced (diff_text2 ?diff) = unspaced txt2"
    unfolding t2 by (simp add: unspaced_normalized)
  show ?thesis
    apply (rule exI [of _ ?diff], rule exI [of _ "dmp c1 c2"])
    apply (rule exI [of _ "(snd (text_words nlp txt1), snd (text_words nlp txt2))"])
    apply (intro conjI r t1 t2 u1 u2)
    done
qed

lemma ex_faithful_lines:
  "faithful ws_tokenize ''a b\<newline>\<newline> c''" "faithful ws_tokenize ''a  d''"
  unfolding faithful_def by code_simp+

lemma ex_normalized_lines:
  "normalized ws_tokenize ''a b\<newline>\<newline> c'' = ''a b c ''"
  "normalized ws_tokenize ''a  d'' = ''a d ''"
  by code_simp+

lemma ex_unspaced: "unspaced ''a b\<newline>\<newline> c'' = ''abc''" "unspaced ''a  d'' = ''ad''"
  by code_simp+

theorem C1_witness:
  "(\<forall>a b :: nat list. valid_diff (trim_diff a b) a b)
   \<and> faithful ws_tokenize ''a b\<newline>\<newline> c'' \<and> faithful ws_tokenize ''a  d''
   \<and> (\<exists>diff char_diff offsets.
        diff_wordMode trim_diff ws_tokenize ''a b\<newline>\<newline> c'' ''a  d'' = Inr (diff, char_diff, offsets)
        \<and> diff_text1 diff = ''a b c '' \<and> diff_text2 diff = ''a d ''
        \<and> unspaced (diff_text1 diff) = ''abc'' \<and> unspaced (diff_text2 diff) = ''ad'')"
proof -
  have v: "\<forall>a b :: nat list. valid_diff (trim_diff a b) a b"
    by (simp add: trim_diff_valid)
  from C1_round_trip [OF v, of ws_tokenize "''a b\<newline>\<newline> c''" "''a  d''"]
  show ?thesis
    unfolding ex_normalized_lines using v ex_faithful_lines ex_unspaced by auto
qed

subsection \<open>C7: a text without tokens\<close>

lemma munged_text_no_tokens:
  assumes "token_lines nlp text = []"
  shows "munged_text nlp text = (if endswith_nl text then [CHR 0x0A, CHR '' ''] else '' '')"
    and "snd (text_words nlp text) = []"
    and "next_line (munged_text nlp text) = munged_text nlp text"
  using assms
  by (simp_all add: munged_text_def text_words_eq last_line_offsets_def next_line_def find_space_def)

text \<open>
  C7.  The codec never raises, and for a text without tokens the offset list is
  empty; the symbol string is not: \<open>" ".join([]) + " "\<close> is one boundary marker,
  which the loop registers as a chunk of its own (after the newline, when the text
  ends in one).  The symbol string has exactly one symbol; for txt1, whose registry
  is fresh, it is symbol 1.
\<close>

theorem C7_no_tokens_one_symbol:
  "\<exists>c1 c2 arr o1 o2.
     diff_wordsToChars nlp txt1 txt2 = Inr (c1, c2, arr, (o1, o2))
     \<and> (token_lines nlp txt1 = [] \<longrightarrow>
          c1 = [1] \<and> o1 = []
          \<and> arr ! 1 = (if endswith_nl txt1 then [CHR 0x0A, CHR '' ''] else '' ''))
     \<and> (token_lines nlp txt2 = [] \<longrightarrow>
          (\<exists>k. c2 = [k] \<and> k < length arr
             \<and> arr ! k = (if endswith_nl txt2 then [CHR 0x0A, CHR '' ''] else '' ''))
          \<and> o2 = [])"
proof -
  from diff_wordsToChars_total [of nlp txt1 txt2]
  obtain c1 c2 arr where
    w: "diff_wordsToChars nlp txt1 txt2 =
          Inr (c1, c2, arr, (snd (text_words nlp txt1), snd (text_words nlp txt2)))"
    and rng: "\<forall>c \<in> set c1 \<union> set c2. c < length arr"
    and d1: "concat (map (\<lambda>c. arr ! c) c1) = munged_text nlp txt1"
    and d2: "concat (map (\<lambda>c. arr ! c) c2) = munged_text nlp txt2"
    and s1: "next_line (munged_text nlp txt1) = munged_text nlp txt1 \<longrightarrow> c1 = [1]"
    and s2: "next_line (munged_text nlp txt2) = munged_text nlp txt2 \<longrightarrow> length c2 = 1"
    by (elim exE conjE) (rule that)
  have p1: "c1 = [1] \<and> snd (text_words nlp txt1) = []
      \<and> arr ! 1 = (if endswith_nl txt1 then [CHR 0x0A, CHR '' ''] else '' '')"
    if e: "token_lines nlp txt1 = []"
  proof -
    from s1 munged_text_no_tokens(3) [OF e] have c1: "c1 = [1]" by simp
    with d1 have "arr ! 1 = munged_text nlp txt1" by simp
    with c1 munged_text_no_tokens(1,2) [OF e] show ?thesis by simp
  qed
  have p2: "(\<exists>k. c2 = [k] \<and> k < length arr
        \<and> arr ! k = (if endswith_nl txt2 then [CHR 0x0A, CHR '' ''] else '' ''))
      \<and> snd (text_words nlp txt2) = []"
    if e: "token_lines nlp txt2 = []"
  proof -
    from s2 munged_text_no_tokens(3) [OF e] have "length c2 = 1" by simp
    then obtain k where c2: "c2 = [k]" by (cases c2) auto
    with d2 have "arr ! k = munged_text nlp txt2" by simp
    with c2 rng munged_text_no_tokens(1,2) [OF e] show ?thesis by simp
  qed
  show ?thesis
    apply (rule exI [of _ c1], rule exI [of _ c2], rule exI [of _ arr])
    apply (rule exI [of _ "snd (text_words nlp txt1)"])
    apply (rule exI [of _ "snd (text_words nlp txt2)"])
    using w p1 p2 apply blast
    done
qed

lemma ex_tw_empty: "text_words ws_tokenize '''' = ([], [])"
  "token_lines ws_tokenize '''' = []"
  "token_lines ws_tokenize ''  '' = []"
  by code_simp+

theorem C7_counterexample:
  "token_lines ws_tokenize '''' = []
   \<and> diff_wordsToChars ws_tokenize '''' '''' = Inr ([1], [1], ['''', '' ''], ([], []))"
  by (simp add: munge_eval ex_tw_empty)

theorem C7_witness:
  "token_lines ws_tokenize ''  '' = []
   \<and> (\<exists>c2 arr o2. diff_wordsToChars ws_tokenize ''  '' ''a b'' = Inr ([1], c2, arr, ([], o2))
        \<and> arr ! 1 = '' '')"
proof -
  from C7_no_tokens_one_symbol [of ws_tokenize "''  ''" "''a b''"]
  obtain c1 c2 arr o1 o2 where
    "diff_wordsToChars ws_tokenize ''  '' ''a b'' = Inr (c1, c2, arr, (o1, o2))"
    "token_lines ws_tokenize ''  '' = [] \<longrightarrow>
          c1 = [1] \<and> o1 = []
          \<and> arr ! 1 = (if endswith_nl ''  '' then [CHR 0x0A, CHR '' ''] else '' '')"
    by blast
  then show ?thesis
    by (simp add: ex_tw_empty endswith_nl_def)
qed

subsection \<open>C8: one side empty\<close>

lemma next_line_word:
  assumes "CHR '' '' \<notin> set w"
  shows "next_line (w @ CHR '' '' # r) = w @ '' ''"
proof -
  have "takeWhile (\<lambda>c. c \<noteq> CHR '' '') (w @ CHR '' '' # r) = w"
    using assms by (induction w) auto
  then show ?thesis
    by (simp add: next_line_def find_space_def)
qed

lemma loop_inv_chunked: "loop_inv chunked (\<lambda>l. l \<noteq> '' '')"
  unfolding loop_inv_def
proof (intro conjI allI impI)
  show "chunked []"
    unfolding chunked_def by (rule exI [of _ "[]"]) simp
next
  fix r assume "chunked r \<and> r \<noteq> []"
  then obtain ws where ws: "\<forall>w \<in> set ws. w \<noteq> [] \<and> CHR '' '' \<notin> set w"
    and r: "r = concat (map (\<lambda>w. w @ '' '') ws)" and ne: "r \<noteq> []"
    by (auto simp: chunked_def)
  from r ne obtain w ws' where c: "ws = w # ws'" by (cases ws) auto
  with ws have w: "w \<noteq> []" "CHR '' '' \<notin> set w" by auto
  have r': "r = w @ CHR '' '' # concat (map (\<lambda>w. w @ '' '') ws')"
    using r c by simp
  have nl: "next_line r = w @ '' ''"
    unfolding r' using next_line_word [OF w(2)] by simp
  show "next_line r \<noteq> '' ''" using nl w by simp
  show "r \<noteq> '' ''" using r' w by (cases w) auto
  have "drop (length (next_line r)) r = concat (map (\<lambda>w. w @ '' '') ws')"
    unfolding nl by (simp add: r')
  moreover have "\<forall>w \<in> set ws'. w \<noteq> [] \<and> CHR '' '' \<notin> set w" using ws c by simp
  ultimately show "chunked (drop (length (next_line r)) r)"
    unfolding chunked_def by blast
qed

lemma chunked_munged: "plain_words (fst (text_words nlp t)) \<Longrightarrow> chunked (munged_text nlp t)"
  unfolding chunked_def munged_text_def plain_words_def
  by (rule exI [of _ "fst (text_words nlp t)"]) (simp add: join_sp_concat)

lemma munged_empty: "munged_text nlp '''' = '' ''" "snd (text_words nlp '''') = []"
  "next_line '' '' = '' ''"
  by (simp_all add: munged_text_def text_words_def endswith_nl_def strip_def next_line_def find_space_def)

lemma run_in_concat:
  "r \<in> set d \<Longrightarrow> Q r \<Longrightarrow> set (snd r) \<subseteq> set (concat (map snd (filter Q d)))"
  by (induction d) auto

text \<open>Runs of a valid edit script of two non-empty strings that share no symbol.\<close>

lemma disjoint_valid_diff:
  assumes v: "valid_diff d a b" and dj: "set a \<inter> set b = {}" and a: "a \<noteq> []" and b: "b \<noteq> []"
  shows "(\<forall>r \<in> set d. fst r = DIFF_EQUAL \<longrightarrow> snd r = [])
       \<and> (\<exists>r \<in> set d. fst r = DIFF_DELETE \<and> snd r \<noteq> [])
       \<and> (\<exists>r \<in> set d. fst r = DIFF_INSERT \<and> snd r \<noteq> [])
       \<and> 2 \<le> length d"
proof -
  have t1: "concat (map snd (filter (\<lambda>r. fst r \<noteq> DIFF_INSERT) d)) = a"
    and t2: "concat (map snd (filter (\<lambda>r. fst r \<noteq> DIFF_DELETE) d)) = b"
    using v by (simp_all add: valid_diff_def diff_text1_def diff_text2_def)
  have eq: "snd r = []" if "r \<in> set d" "fst r = DIFF_EQUAL" for r
  proof -
    have "set (snd r) \<subseteq> set a"
      using run_in_concat [of r d "\<lambda>r. fst r \<noteq> DIFF_INSERT"] that t1 by simp
    moreover have "set (snd r) \<subseteq> set b"
      using run_in_concat [of r d "\<lambda>r. fst r \<noteq> DIFF_DELETE"] that t2 by simp
    ultimately have "set (snd r) \<subseteq> set a \<inter> set b" by simp
    then show ?thesis unfolding dj by simp
  qed
  from a t1 obtain r1 where r1: "r1 \<in> set d" "fst r1 \<noteq> DIFF_INSERT" "snd r1 \<noteq> []"
    by (cases "\<exists>r \<in> set d. fst r \<noteq> DIFF_INSERT \<and> snd r \<noteq> []") auto
  from b t2 obtain r2 where r2: "r2 \<in> set d" "fst r2 \<noteq> DIFF_DELETE" "snd r2 \<noteq> []"
    by (cases "\<exists>r \<in> set d. fst r \<noteq> DIFF_DELETE \<and> snd r \<noteq> []") auto
  from r1 eq have d1: "fst r1 = DIFF_DELETE" by (cases "fst r1") auto
  from r2 eq have d2: "fst r2 = DIFF_INSERT" by (cases "fst r2") auto
  from d1 d2 have "r1 \<noteq> r2" by auto
  then have "card {r1, r2} = 2" by simp
  moreover have "card {r1, r2} \<le> card (set d)"
    using r1(1) r2(1) by (intro card_mono) auto
  moreover have "card (set d) \<le> length d" by (rule card_length)
  ultimately have "2 \<le> length d" by simp
  with eq r1 r2 d1 d2 show ?thesis by blast
qed

lemma diff_wordMode_disjoint:
  assumes valid: "\<forall>a b. valid_diff (dmp a b) a b"
    and w: "diff_wordsToChars nlp txt1 txt2 = Inr (c1, c2, arr, offsets)"
    and r1: "\<forall>c \<in> set c1. c < length arr" and r2: "\<forall>c \<in> set c2. c < length arr"
    and d1: "concat (map (\<lambda>c. arr ! c) c1) = munged_text nlp txt1"
    and d2: "concat (map (\<lambda>c. arr ! c) c2) = munged_text nlp txt2"
    and dj: "set c1 \<inter> set c2 = {}"
  shows "\<exists>diff char_diff. diff_wordMode dmp nlp txt1 txt2 = Inr (diff, char_diff, offsets)
           \<and> diff_text1 diff = munged_text nlp txt1 \<and> diff_text2 diff = munged_text nlp txt2
           \<and> length diff = length char_diff \<and> two_sided char_diff"
proof -
  have rng: "\<forall>c \<in> set c1 \<union> set c2. c < length arr" using r1 r2 by auto
  have ne1: "c1 \<noteq> []" using d1 by (auto simp: munged_text_def)
  have ne2: "c2 \<noteq> []" using d2 by (auto simp: munged_text_def)
  from valid have v: "valid_diff (dmp c1 c2) c1 c2" by simp
  then have t: "diff_text1 (dmp c1 c2) = c1" "diff_text2 (dmp c1 c2) = c2"
    by (simp_all add: valid_diff_def)
  have "two_sided (dmp c1 c2)"
    unfolding two_sided_def by (rule disjoint_valid_diff [OF v dj ne1 ne2])
  then show ?thesis
    unfolding diff_wordMode_props [OF valid w rng]
    by (simp add: diff_text1_decoded diff_text2_decoded t d1 d2)
qed

text \<open>
  C8.  Diffing a text of plain words against the empty text never gives one run.
  The empty text is encoded as one symbol, for the chunk of the lone boundary marker,
  and no chunk of the other text is that chunk.  For every \<open>diff_main\<close> that
  meets its contract the result therefore has at least two runs: its equal runs are
  empty, its deleted and inserted runs are not, and the runs of the empty side decode
  to the boundary marker.  This holds with the non-empty text first or second.
\<close>

theorem C8_empty_side_keeps_a_run:
  assumes valid: "\<forall>a b. valid_diff (dmp a b) a b"
    and plain: "plain_words (fst (text_words nlp t))"
  shows "(\<exists>diff char_diff o1.
            diff_wordMode dmp nlp t '''' = Inr (diff, char_diff, (o1, []))
            \<and> diff_text1 diff = munged_text nlp t \<and> diff_text2 diff = '' ''
            \<and> length diff = length char_diff \<and> two_sided char_diff)
       \<and> (\<exists>diff char_diff o2.
            diff_wordMode dmp nlp '''' t = Inr (diff, char_diff, ([], o2))
            \<and> diff_text1 diff = '' '' \<and> diff_text2 diff = munged_text nlp t
            \<and> length diff = length char_diff \<and> two_sided char_diff)"
proof (rule conjI)
  from diff_wordsToChars_props [OF loop_inv_chunked chunked_munged [OF plain] loop_inv_True,
      where ?t2.0 = "''''"]
  obtain c1 c2 arr where
    w: "diff_wordsToChars nlp t '''' =
          Inr (c1, c2, arr, (snd (text_words nlp t), snd (text_words nlp '''')))"
    and r1: "\<forall>c \<in> set c1. c < length arr \<and> arr ! c \<noteq> '' ''"
    and r2: "\<forall>c \<in> set c2. c < length arr"
    and d1: "concat (map (\<lambda>c. arr ! c) c1) = munged_text nlp t"
    and d2: "concat (map (\<lambda>c. arr ! c) c2) = munged_text nlp ''''"
    and s2: "next_line (munged_text nlp '''') = munged_text nlp '''' \<longrightarrow> length c2 = 1"
    by auto
  from s2 have "length c2 = 1" by (simp add: munged_empty)
  then obtain k where c2: "c2 = [k]" by (cases c2) auto
  with d2 have "arr ! k = '' ''" by (simp add: munged_empty)
  with r1 c2 have dj: "set c1 \<inter> set c2 = {}" by auto
  from r1 have r1': "\<forall>c \<in> set c1. c < length arr" by simp
  from diff_wordMode_disjoint [OF valid w r1' r2 d1 d2 dj]
  show "\<exists>diff char_diff o1.
            diff_wordMode dmp nlp t '''' = Inr (diff, char_diff, (o1, []))
            \<and> diff_text1 diff = munged_text nlp t \<and> diff_text2 diff = '' ''
            \<and> length diff = length char_diff \<and> two_sided char_diff"
    by (auto simp: munged_empty)
next
  from diff_wordsToChars_props [OF loop_inv_True _ loop_inv_chunked chunked_munged [OF plain],
      where ?t1.0 = "''''"]
  obtain c1 c2 arr where
    w: "diff_wordsToChars nlp '''' t =
          Inr (c1, c2, arr, (snd (text_words nlp ''''), snd (text_words nlp t)))"
    and r1: "\<forall>c \<in> set c1. c < length arr"
    and r2: "\<forall>c \<in> set c2. c < length arr \<and> arr ! c \<noteq> '' ''"
    and d1: "concat (map (\<lambda>c. arr ! c) c1) = munged_text nlp ''''"
    and d2: "concat (map (\<lambda>c. arr ! c) c2) = munged_text nlp t"
    and s1: "next_line (munged_text nlp '''') = munged_text nlp '''' \<longrightarrow> c1 = [1]"
    by auto
  from s1 have c1: "c1 = [1]" by (simp add: munged_empty)
  with d1 have "arr ! 1 = '' ''" by (simp add: munged_empty)
  with r2 c1 have dj: "set c1 \<inter> set c2 = {}" by auto
  from r2 have r2': "\<forall>c \<in> set c2. c < length arr" by simp
  from diff_wordMode_disjoint [OF valid w r1 r2' d1 d2 dj]
  show "\<exists>diff char_diff o2.
            diff_wordMode dmp nlp '''' t = Inr (diff, char_diff, ([], o2))
            \<and> diff_text1 diff = '' '' \<and> diff_text2 diff = munged_text nlp t
            \<and> length diff = length char_diff \<and> two_sided char_diff"
    by (auto simp: munged_empty)
qed

lemma ex_hello: "text_words ws_tokenize ''hello'' = ([''hello''], [(0, 5)])"
  by code_simp

theorem C8_counterexample:
  "diff_wordMode trim_diff ws_tokenize ''hello'' '''' =
     Inr ([(DIFF_DELETE, ''hello ''), (DIFF_INSERT, '' '')],
          [(DIFF_DELETE, [1]), (DIFF_INSERT, [2])], ([(0, 5)], []))"
  by (simp add: diff_wordMode_def munge_eval ex_hello ex_tw_empty trim_diff_def run_def)

theorem C8_witness:
  "(\<forall>a b :: nat list. valid_diff (trim_diff a b) a b)
   \<and> plain_words (fst (text_words ws_tokenize ''hello''))
   \<and> (\<exists>diff char_diff o1.
        diff_wordMode trim_diff ws_tokenize ''hello'' '''' = Inr (diff, char_diff, (o1, []))
        \<and> diff_text2 diff = '' '' \<and> two_sided char_diff)"
proof -
  have v: "\<forall>a b :: nat list. valid_diff (trim_diff a b) a b"
    by (simp add: trim_diff_valid)
  have p: "plain_words (fst (text_words ws_tokenize ''hello''))"
    by (simp add: ex_hello plain_words_def)
  from C8_empty_side_keeps_a_run [OF v p] v p show ?thesis by blast
qed

section \<open>Properties of the edit classifier\<close>

subsection \<open>The loop against the specification\<close>

lemma span_text_sentinel: "span_text content (-1, -1) = []"
  by (simp add: span_text_def)

lemma drop_tags:
  "i < length diff \<Longrightarrow> map fst (drop i diff) = fst (diff ! i) # map fst (drop (Suc i) diff)"
  by (simp add: Cons_nth_drop_Suc [symmetric])

lemma handle_turn_props:
  assumes len: "length num_tokens_list = length diff" and i: "i < length diff"
  shows "\<exists>e st' i'. handle_turn format_edit cont1 cont2 diff num_tokens_list i st = Inr (st', i')
           \<and> edit_dicts st' = edit_dicts st @ [e] \<and> sentinel_ok e \<and> i' \<le> length diff
           \<and> edit_type e # classify_spec (map fst (drop i' diff)) = classify_spec (map fst (drop i diff))"
proof (cases "fst (diff ! i)")
  case DIFF_DELETE
  show ?thesis
  proof (cases "Suc i < length diff \<and> fst (diff ! Suc i) = DIFF_INSERT")
    case True
    then have tags: "map fst (drop i diff) = DIFF_DELETE # DIFF_INSERT # map fst (drop (Suc (Suc i)) diff)"
      using drop_tags [OF i] drop_tags [of "Suc i" diff] DIFF_DELETE by simp
    from True len i DIFF_DELETE show ?thesis
      unfolding tags
      by (simp add: handle_turn_def Let_def split_beta sentinel_ok_def new_edit_def)
  next
    case False
    then have tags: "classify_spec (map fst (drop i diff)) = ''deletion'' # classify_spec (map fst (drop (Suc i) diff))"
    proof (cases "Suc i < length diff")
      case True
      with False have "fst (diff ! Suc i) \<noteq> DIFF_INSERT" by simp
      then show ?thesis
        using drop_tags [OF i] drop_tags [OF True] DIFF_DELETE
        by (cases "fst (diff ! Suc i)") simp_all
    next
      case False
      then show ?thesis using drop_tags [OF i] DIFF_DELETE by simp
    qed
    from False len i DIFF_DELETE show ?thesis
      unfolding tags
      by (auto simp: handle_turn_def Let_def split_beta sentinel_ok_def new_edit_def span_text_sentinel)
  qed
next
  case DIFF_INSERT
  with len i show ?thesis
    using drop_tags [OF i]
    by (simp add: handle_turn_def Let_def split_beta sentinel_ok_def new_edit_def span_text_sentinel)
next
  case DIFF_EQUAL
  with len i show ?thesis
    using drop_tags [OF i]
    by (simp add: handle_turn_def Let_def split_beta sentinel_ok_def new_edit_def)
qed

lemma handle_loop_props:
  assumes "length num_tokens_list = length diff" and "i \<le> length diff"
  shows "\<exists>st' new. handle_loop format_edit cont1 cont2 diff num_tokens_list i st = Inr st'
           \<and> edit_dicts st' = edit_dicts st @ new
           \<and> map edit_type new = classify_spec (map fst (drop i diff))
           \<and> (\<forall>e \<in> set new. sentinel_ok e)"
  using assms
proof (induction format_edit cont1 cont2 diff num_tokens_list i st rule: handle_loop.induct)
  case (1 format_edit cont1 cont2 diff num_tokens_list i st)
  show ?case
  proof (cases "i < length diff")
    case False
    with "1.prems" show ?thesis
      by (subst handle_loop.simps) simp
  next
    case True
    then have c: "int i \<le> int (length diff) - 1" by simp
    from handle_turn_props [OF "1.prems"(1) True, of format_edit cont1 cont2 st]
    obtain e st1 i1 where
      t: "handle_turn format_edit cont1 cont2 diff num_tokens_list i st = Inr (st1, i1)"
      and ed: "edit_dicts st1 = edit_dicts st @ [e]" and ok: "sentinel_ok e"
      and i1: "i1 \<le> length diff"
      and cl: "edit_type e # classify_spec (map fst (drop i1 diff)) = classify_spec (map fst (drop i diff))"
      by (elim exE conjE) (rule that)
    from "1.IH" [OF c t refl "1.prems"(1) i1]
    obtain st' new where
      l: "handle_loop format_edit cont1 cont2 diff num_tokens_list i1 st1 = Inr st'"
      and ed': "edit_dicts st' = edit_dicts st1 @ new"
      and cl': "map edit_type new = classify_spec (map fst (drop i1 diff))"
      and ok': "\<forall>e \<in> set new. sentinel_ok e"
      by (elim exE conjE) (rule that)
    have "handle_loop format_edit cont1 cont2 diff num_tokens_list i st = Inr st'"
      using c t l by (simp add: handle_loop.simps [of _ _ _ diff _ i])
    then show ?thesis
      using ed ed' cl cl' ok ok'
      by (intro exI [of _ st'] exI [of _ "e # new"]) auto
  qed
qed

lemma handle_diff_props:
  assumes "length char_diff = length diff" and "diff \<noteq> []"
  shows "\<exists>h1 h2 eds n'. handle_diff format_edit cont1 cont2 n diff char_diff offs1 offs2
             = Inr (h1, h2, eds, n')
           \<and> map edit_type eds = classify_spec (map fst diff)
           \<and> (\<forall>e \<in> set eds. sentinel_ok e)"
proof -
  from assms have ne: "char_diff \<noteq> []" by auto
  from handle_loop_props [of "map (\<lambda>r. length (snd r)) char_diff" diff 0 format_edit cont1 cont2
      "\<lparr>offsets1 = offs1, offsets2 = offs2, html1 = [], html2 = [], edit_dicts = [], num_edits = n\<rparr>"]
    assms(1)
  obtain st' new where
    "handle_loop format_edit cont1 cont2 diff (map (\<lambda>r. length (snd r)) char_diff) 0
       \<lparr>offsets1 = offs1, offsets2 = offs2, html1 = [], html2 = [], edit_dicts = [], num_edits = n\<rparr> = Inr st'"
    "edit_dicts st' = new" "map edit_type new = classify_spec (map fst diff)"
    "\<forall>e \<in> set new. sentinel_ok e"
    by auto
  with ne show ?thesis
    by (simp add: handle_diff_def Let_def)
qed

lemma classify_spec_after_delete: "classify_spec (DIFF_DELETE # ts) ! 0 \<noteq> ''insertion''"
proof (cases ts)
  case Nil
  then show ?thesis by simp
next
  case (Cons t ts')
  then show ?thesis by (cases t) simp_all
qed

lemma classify_spec_no_deletion_insertion:
  "Suc k < length (classify_spec ts) \<Longrightarrow>
   \<not> (classify_spec ts ! k = ''deletion'' \<and> classify_spec ts ! Suc k = ''insertion'')"
proof (induction ts arbitrary: k rule: classify_spec.induct)
qed (auto simp: nth_Cons classify_spec_after_delete split: nat.splits)

lemma classify_spec_length:
  "length (classify_spec ts) + length (filter (\<lambda>t. t = ''substitution'') (classify_spec ts)) = length ts"
  by (induction ts rule: classify_spec.induct) auto

lemma handle_turn_sentinel:
  "handle_turn format_edit cont1 cont2 diff num_tokens_list i st = Inr (st', i') \<Longrightarrow>
   \<exists>e. edit_dicts st' = edit_dicts st @ [e] \<and> sentinel_ok e"
  by (auto simp: handle_turn_def Let_def split_beta sentinel_ok_def new_edit_def span_text_sentinel
      split: if_splits op.splits)

lemma handle_loop_sentinel:
  "handle_loop format_edit cont1 cont2 diff num_tokens_list i st = Inr st' \<Longrightarrow>
   \<forall>e \<in> set (edit_dicts st). sentinel_ok e \<Longrightarrow> \<forall>e \<in> set (edit_dicts st'). sentinel_ok e"
proof (induction format_edit cont1 cont2 diff num_tokens_list i st rule: handle_loop.induct)
  case (1 format_edit cont1 cont2 diff num_tokens_list i st)
  show ?case
  proof (cases "int i \<le> int (length diff) - 1")
    case False
    with "1.prems" show ?thesis
      by (subst (asm) handle_loop.simps) simp
  next
    case True
    with "1.prems"(1) obtain st1 i1 where
      t: "handle_turn format_edit cont1 cont2 diff num_tokens_list i st = Inr (st1, i1)"
      and l: "handle_loop format_edit cont1 cont2 diff num_tokens_list i1 st1 = Inr st'"
      by (subst (asm) handle_loop.simps) (auto split: sum.splits)
    from handle_turn_sentinel [OF t] "1.prems"(2)
    have "\<forall>e \<in> set (edit_dicts st1). sentinel_ok e" by auto
    from "1.IH" [OF True t refl l this] show ?thesis .
  qed
qed

lemma handle_diff_sentinel:
  "handle_diff format_edit cont1 cont2 n diff char_diff offs1 offs2 = Inr (h1, h2, eds, n') \<Longrightarrow>
   \<forall>e \<in> set eds. sentinel_ok e"
  using handle_loop_sentinel [of format_edit cont1 cont2 diff
      "map (\<lambda>r. length (snd r)) char_diff" 0
      "\<lparr>offsets1 = offs1, offsets2 = offs2, html1 = [], html2 = [], edit_dicts = [], num_edits = n\<rparr>"]
  by (auto simp: handle_diff_def Let_def split: if_splits sum.splits)

lemma handle_loop_step:
  "i < length diff \<Longrightarrow>
   handle_loop format_edit cont1 cont2 diff num_tokens_list i st =
     (case handle_turn format_edit cont1 cont2 diff num_tokens_list i st of
        Inl e \<Rightarrow> Inl e
      | Inr (st', i') \<Rightarrow> handle_loop format_edit cont1 cont2 diff num_tokens_list i' st')"
  by (subst handle_loop.simps) simp

lemma handle_loop_done:
  "\<not> i < length diff \<Longrightarrow>
   handle_loop format_edit cont1 cont2 diff num_tokens_list i st = Inr st"
  by (subst handle_loop.simps) simp

lemmas handle_eval = handle_loop_step handle_loop_done
  handle_diff_def handle_turn_def deque_def new_edit_def span_text_def py_slice_def py_index_def
  num_double_quotes_def strip_def is_space_def Let_def

lemma ex_handle_diff:
  "handle_diff (\<lambda>t e. e @ '':'' @ t) ''a b'' ''a c'' 0
     [(DIFF_EQUAL, ''a ''), (DIFF_DELETE, ''b ''), (DIFF_INSERT, ''c '')]
     [(DIFF_EQUAL, [1]), (DIFF_DELETE, [2]), (DIFF_INSERT, [3])]
     [(0, 1), (2, 3)] [(0, 1), (2, 3)]
   = Inr (''a'', ''a'',
          [\<lparr>edit_type = ''same'', offset1 = (0, 1), offset2 = (0, 1), text1 = ''a'', text2 = ''a''\<rparr>,
           \<lparr>edit_type = ''substitution'', offset1 = (2, 3), offset2 = (2, 3), text1 = ''b'', text2 = ''c''\<rparr>],
          1)"
  by (simp add: handle_eval)

subsection \<open>C2: a deletion followed by an insertion is one substitution\<close>

text \<open>
  C2.  For a run sequence with its symbol-level copy (of the same length, not empty),
  \<open>handle_diff\<close> returns, and the edit types of its records are those of the
  specification: a deletion run immediately followed by an insertion run gives one
  \<open>substitution\<close> record and the loop passes both runs, every other run gives one
  record.  So the records and the substitutions among them add up to the number of
  runs, and no \<open>deletion\<close> record is directly followed by an \<open>insertion\<close>
  record.
\<close>

theorem C2_substitution_merge:
  assumes "length char_diff = length diff" and "diff \<noteq> []"
  shows "\<exists>h1 h2 eds n'.
           handle_diff format_edit cont1 cont2 n diff char_diff offs1 offs2 = Inr (h1, h2, eds, n')
           \<and> map edit_type eds = classify_spec (map fst diff)
           \<and> length eds + length (filter (\<lambda>e. edit_type e = ''substitution'') eds) = length diff
           \<and> (\<forall>k. Suc k < length eds \<longrightarrow>
                 \<not> (edit_type (eds ! k) = ''deletion'' \<and> edit_type (eds ! Suc k) = ''insertion''))"
proof -
  from handle_diff_props [OF assms, of format_edit cont1 cont2 n offs1 offs2]
  obtain h1 h2 eds n' where
    r: "handle_diff format_edit cont1 cont2 n diff char_diff offs1 offs2 = Inr (h1, h2, eds, n')"
    and c: "map edit_type eds = classify_spec (map fst diff)"
    by blast
  have "length (filter (\<lambda>e. edit_type e = ''substitution'') eds)
      = length (filter (\<lambda>t. t = ''substitution'') (map edit_type eds))"
    by (simp add: filter_map comp_def)
  then have len: "length eds + length (filter (\<lambda>e. edit_type e = ''substitution'') eds) = length diff"
    using classify_spec_length [of "map fst diff"] c
    by (metis length_map)
  have adj: "\<not> (edit_type (eds ! k) = ''deletion'' \<and> edit_type (eds ! Suc k) = ''insertion'')"
    if "Suc k < length eds" for k
  proof -
    from that have k: "Suc k < length (classify_spec (map fst diff))"
      using c by (metis length_map)
    have "edit_type (eds ! k) = classify_spec (map fst diff) ! k"
      "edit_type (eds ! Suc k) = classify_spec (map fst diff) ! Suc k"
      using that c by (metis Suc_lessD nth_map, metis nth_map)
    with classify_spec_no_deletion_insertion [OF k] show ?thesis by simp
  qed
  from r c len adj show ?thesis by blast
qed

theorem C2_witness:
  "length [(DIFF_EQUAL, [1::nat]), (DIFF_DELETE, [2]), (DIFF_INSERT, [3])]
     = length [(DIFF_EQUAL, ''a ''), (DIFF_DELETE, ''b ''), (DIFF_INSERT, ''c '')]
   \<and> (\<exists>h1 h2 eds n'.
        handle_diff (\<lambda>t e. e @ '':'' @ t) ''a b'' ''a c'' 0
          [(DIFF_EQUAL, ''a ''), (DIFF_DELETE, ''b ''), (DIFF_INSERT, ''c '')]
          [(DIFF_EQUAL, [1]), (DIFF_DELETE, [2]), (DIFF_INSERT, [3])]
          [(0, 1), (2, 3)] [(0, 1), (2, 3)] = Inr (h1, h2, eds, n')
        \<and> map edit_type eds = [''same'', ''substitution''] \<and> length eds = 2)"
  using C2_substitution_merge [of "[(DIFF_EQUAL, [1]), (DIFF_DELETE, [2]), (DIFF_INSERT, [3])]"
      "[(DIFF_EQUAL, ''a ''), (DIFF_DELETE, ''b ''), (DIFF_INSERT, ''c '')]"
      "\<lambda>t e. e @ '':'' @ t" "''a b''" "''a c''" 0 "[(0, 1), (2, 3)]" "[(0, 1), (2, 3)]"]
  by (auto simp: length_Suc_conv)

subsection \<open>C3: sentinel fields\<close>

lemma unaligned_sentence_ok:
  "unaligned_sentence et so1 so2 par_index sentences gsi l js = Inr js' \<Longrightarrow>
   all_sentinel_ok js \<Longrightarrow> all_sentinel_ok js'"
  by (auto simp: unaligned_sentence_def Let_def all_sentinel_ok_def sentinel_ok_def list_get_def
      list_set_def split: if_splits sum.splits)

lemma unaligned_sentences_ok:
  "unaligned_sentences et so1 so2 par_index sentences gsi ls js = Inr js' \<Longrightarrow>
   all_sentinel_ok js \<Longrightarrow> all_sentinel_ok js'"
proof (induction ls arbitrary: js)
  case Nil
  then show ?case by simp
next
  case (Cons l ls)
  then show ?case
    by (auto split: sum.splits dest: unaligned_sentence_ok)
qed

lemma unaligned_loop_ok:
  "unaligned_loop format_edit so1 so2 et seen_pars paragraphs idxs (js, text_html, n)
     = Inr (js', text_html', n') \<Longrightarrow>
   all_sentinel_ok js \<Longrightarrow> all_sentinel_ok js'"
proof (induction idxs arbitrary: js text_html n)
  case Nil
  then show ?case by simp
next
  case (Cons i idxs)
  then show ?case
    by (auto simp: Let_def split: if_splits sum.splits dest: unaligned_sentences_ok)
qed

text \<open>
  C3.  Every record \<open>handle_diff\<close> returns has, when it is a \<open>deletion\<close>,
  \<open>offset2 = (-1, -1)\<close> and \<open>text2 = ""\<close>, and when it is an \<open>insertion\<close>,
  \<open>offset1 = (-1, -1)\<close> and \<open>text1 = ""\<close>.  \<open>add_unaligned_paragraphs\<close> keeps
  this true of every record of every alignment.
\<close>

theorem C3_sentinel_correctness:
  "(\<forall>h1 h2 eds n'.
      handle_diff format_edit cont1 cont2 n diff char_diff offs1 offs2 = Inr (h1, h2, eds, n')
      \<longrightarrow> (\<forall>e \<in> set eds.
             (edit_type e = ''deletion'' \<longrightarrow> offset2 e = (-1, -1) \<and> text2 e = [])
             \<and> (edit_type e = ''insertion'' \<longrightarrow> offset1 e = (-1, -1) \<and> text1 e = [])))
   \<and> (\<forall>js' text_html' m'.
        add_unaligned_paragraphs format_edit so1 so2 et seen_pars text_html paragraphs js m
          = Inr (js', text_html', m')
        \<and> all_sentinel_ok js \<longrightarrow> all_sentinel_ok js')"
proof (intro conjI allI impI)
  fix h1 h2 eds n'
  assume "handle_diff format_edit cont1 cont2 n diff char_diff offs1 offs2 = Inr (h1, h2, eds, n')"
  from handle_diff_sentinel [OF this]
  show "\<forall>e \<in> set eds.
             (edit_type e = ''deletion'' \<longrightarrow> offset2 e = (-1, -1) \<and> text2 e = [])
             \<and> (edit_type e = ''insertion'' \<longrightarrow> offset1 e = (-1, -1) \<and> text1 e = [])"
    by (simp add: sentinel_ok_def)
next
  fix js' text_html' m'
  assume "add_unaligned_paragraphs format_edit so1 so2 et seen_pars text_html paragraphs js m
          = Inr (js', text_html', m') \<and> all_sentinel_ok js"
  then show "all_sentinel_ok js'"
    using unaligned_loop_ok [of format_edit so1 so2 et seen_pars paragraphs "[0..<length paragraphs]"
        js text_html m js' text_html' m']
    by (simp add: add_unaligned_paragraphs_def)
qed

lemma ex_handle_diff_del_ins:
  "handle_diff (\<lambda>t e. e @ '':'' @ t) ''b a'' ''a c'' 0
     [(DIFF_DELETE, ''b ''), (DIFF_EQUAL, ''a ''), (DIFF_INSERT, ''c '')]
     [(DIFF_DELETE, [1]), (DIFF_EQUAL, [2]), (DIFF_INSERT, [3])]
     [(0, 1), (2, 3)] [(0, 1), (2, 3)]
   = Inr (''a'', ''a'',
          [\<lparr>edit_type = ''deletion'', offset1 = (0, 1), offset2 = (-1, -1), text1 = ''b'', text2 = ''''\<rparr>,
           \<lparr>edit_type = ''same'', offset1 = (2, 3), offset2 = (0, 1), text1 = ''a'', text2 = ''a''\<rparr>,
           \<lparr>edit_type = ''insertion'', offset1 = (-1, -1), offset2 = (2, 3), text1 = '''', text2 = ''c''\<rparr>],
          2)"
  by (simp add: handle_eval)

lemma ex_add_unaligned:
  "add_unaligned_paragraphs (\<lambda>t e. e @ '':'' @ t) [(0, 1)] [] ''deletion'' {} [''''] [[''x'']]
     \<lparr>file1_sentences = [\<lparr>sentence_text = '''', paragraph_index = None, sentence_index = None,
                           offset = (-1, -1)\<rparr>],
      file2_sentences = [], alignments = Map.empty\<rparr> 0
   = Inr (\<lparr>file1_sentences = [\<lparr>sentence_text = ''x'', paragraph_index = Some 0,
                                 sentence_index = Some 0, offset = (0, 1)\<rparr>],
           file2_sentences = [],
           alignments = [0 \<mapsto> \<lparr>match = [-1],
             edits = [\<lparr>edit_type = ''deletion'', offset1 = (0, 1), offset2 = (-1, -1),
                       text1 = ''x'', text2 = ''''\<rparr>]\<rparr>]\<rparr>,
          [''deletion:x''], 1)"
  by (simp add: add_unaligned_paragraphs_def get_sent_indices_def sentence_offset_loop.simps [of _ 0]
      unaligned_sentence_def list_get_def list_set_def Let_def)

theorem C3_witness:
  "(\<exists>h1 h2 eds n'.
      handle_diff (\<lambda>t e. e @ '':'' @ t) ''b a'' ''a c'' 0
        [(DIFF_DELETE, ''b ''), (DIFF_EQUAL, ''a ''), (DIFF_INSERT, ''c '')]
        [(DIFF_DELETE, [1]), (DIFF_EQUAL, [2]), (DIFF_INSERT, [3])]
        [(0, 1), (2, 3)] [(0, 1), (2, 3)] = Inr (h1, h2, eds, n')
      \<and> map edit_type eds = [''deletion'', ''same'', ''insertion'']
      \<and> offset2 (eds ! 0) = (-1, -1) \<and> text2 (eds ! 0) = []
      \<and> offset1 (eds ! 2) = (-1, -1) \<and> text1 (eds ! 2) = [])
   \<and> (\<exists>js' text_html' m'.
        add_unaligned_paragraphs (\<lambda>t e. e @ '':'' @ t) [(0, 1)] [] ''deletion'' {} [''''] [[''x'']]
          \<lparr>file1_sentences = [\<lparr>sentence_text = '''', paragraph_index = None, sentence_index = None,
                                offset = (-1, -1)\<rparr>],
           file2_sentences = [], alignments = Map.empty\<rparr> 0 = Inr (js', text_html', m')
        \<and> alignments js' 0 \<noteq> None \<and> all_sentinel_ok js')"
proof -
  have e: "all_sentinel_ok \<lparr>file1_sentences = [\<lparr>sentence_text = '''', paragraph_index = None,
      sentence_index = None, offset = (-1, -1)\<rparr>], file2_sentences = [], alignments = Map.empty\<rparr>"
    by (simp add: all_sentinel_ok_def)
  from C3_sentinel_correctness [of "\<lambda>t e. e @ '':'' @ t" "''b a''" "''a c''" 0
      "[(DIFF_DELETE, ''b ''), (DIFF_EQUAL, ''a ''), (DIFF_INSERT, ''c '')]"
      "[(DIFF_DELETE, [1]), (DIFF_EQUAL, [2]), (DIFF_INSERT, [3])]"
      "[(0, 1), (2, 3)]" "[(0, 1), (2, 3)]" "[(0, 1)]" "[]" "''deletion''" "{}" "['''']" "[[''x'']]"
      "\<lparr>file1_sentences = [\<lparr>sentence_text = '''', paragraph_index = None,
         sentence_index = None, offset = (-1, -1)\<rparr>], file2_sentences = [], alignments = Map.empty\<rparr>" 0]
    e
  show ?thesis
    unfolding ex_handle_diff_del_ins ex_add_unaligned by simp
qed

subsection \<open>C4: too few offsets\<close>

text \<open>
  C4.  \<open>deque\<close> never raises.  It gives the sentinel span when the slice
  \<open>offset_list[:num_tokens]\<close> is empty, that is when no offset is left or the run
  has no token.  When offsets are left but fewer than \<open>num_tokens\<close>, the span is
  not the sentinel: it runs from the first offset left to the end of the last one
  (less the quote count), and no offset remains.  \<open>handle_diff\<close> returns for every
  non-empty run sequence with a symbol-level copy of the same length, whatever the
  offset lists.
\<close>

theorem C4_offset_underrun:
  "(offset_list = [] \<or> num_tokens = 0 \<longrightarrow>
      deque offset_list diff_string num_tokens = ((-1, -1), drop num_tokens offset_list))
   \<and> (offset_list \<noteq> [] \<and> length offset_list < num_tokens \<longrightarrow>
      deque offset_list diff_string num_tokens =
        ((fst (hd offset_list), snd (last offset_list) - int (num_double_quotes diff_string)), []))
   \<and> (length char_diff = length diff \<and> diff \<noteq> [] \<longrightarrow>
      (\<exists>h1 h2 eds n'.
         handle_diff format_edit cont1 cont2 n diff char_diff offs1 offs2 = Inr (h1, h2, eds, n')))"
proof (intro conjI impI)
  assume "offset_list = [] \<or> num_tokens = 0"
  then show "deque offset_list diff_string num_tokens = ((-1, -1), drop num_tokens offset_list)"
    by (auto simp: deque_def)
next
  assume "offset_list \<noteq> [] \<and> length offset_list < num_tokens"
  then show "deque offset_list diff_string num_tokens =
        ((fst (hd offset_list), snd (last offset_list) - int (num_double_quotes diff_string)), [])"
    by (simp add: deque_def)
next
  assume "length char_diff = length diff \<and> diff \<noteq> []"
  then show "\<exists>h1 h2 eds n'.
         handle_diff format_edit cont1 cont2 n diff char_diff offs1 offs2 = Inr (h1, h2, eds, n')"
    using handle_diff_props [of char_diff diff format_edit cont1 cont2 n offs1 offs2] by blast
qed

theorem C4_counterexample:
  "handle_diff (\<lambda>t e. e @ '':'' @ t) ''a'' ''a b'' 0
     [(DIFF_EQUAL, ''a b '')] [(DIFF_EQUAL, [1, 2])] [(0, 1)] [(0, 1), (2, 3)]
   = Inr (''a b'', ''a b'',
          [\<lparr>edit_type = ''same'', offset1 = (0, 1), offset2 = (0, 3), text1 = ''a'', text2 = ''a b''\<rparr>],
          0)"
  by (simp add: handle_eval)

theorem C4_witness:
  "deque [] ''a b'' 2 = ((-1, -1), [])
   \<and> deque [(0, 1)] ''a b'' 2 = ((0, 1), [])
   \<and> (\<exists>h1 h2 eds n'.
        handle_diff (\<lambda>t e. e @ '':'' @ t) ''a'' ''a b'' 0
          [(DIFF_EQUAL, ''a b '')] [(DIFF_EQUAL, [1, 2])] [(0, 1)] [(0, 1), (2, 3)] = Inr (h1, h2, eds, n'))"
proof -
  have q: "num_double_quotes ''a b'' = 0" by (simp add: num_double_quotes_def)
  from C4_offset_underrun [of "[]" 2 "''a b''" "[(DIFF_EQUAL, [1, 2])]" "[(DIFF_EQUAL, ''a b '')]"
      "\<lambda>t e. e @ '':'' @ t" "''a''" "''a b''" 0 "[(0, 1)]" "[(0, 1), (2, 3)]"]
    C4_offset_underrun [of "[(0, 1)]" 2 "''a b''" "[(DIFF_EQUAL, [1, 2])]" "[(DIFF_EQUAL, ''a b '')]"
      "\<lambda>t e. e @ '':'' @ t" "''a''" "''a b''" 0 "[(0, 1)]" "[(0, 1), (2, 3)]"]
  show ?thesis by (simp add: q)
qed

subsection \<open>C5: the quote count of a substitution\<close>

text \<open>
  C5.  In the substitution branch both calls of \<open>deque\<close> are given
  \<open>diff_string\<close>, the deleted text: the end of \<open>offset2\<close> is corrected by the
  quote markers of the deleted run, not of the inserted one.  Here the deleted text
  has one marker and the inserted text none, and the end of \<open>offset2\<close> is 0 where
  the last token of the inserted run ends at 1.
\<close>

theorem C5_substitution_offset2_uses_deleted_text:
  "handle_diff (\<lambda>t e. e @ '':'' @ t) ''Q'' ''b'' 0
     [(DIFF_DELETE, ''`` ''), (DIFF_INSERT, ''b '')] [(DIFF_DELETE, [1]), (DIFF_INSERT, [2])]
     [(0, 2)] [(0, 1)]
   = Inr (''substitution:``'', ''substitution:b'',
          [\<lparr>edit_type = ''substitution'', offset1 = (0, 1), offset2 = (0, 0), text1 = ''Q'', text2 = ''''\<rparr>],
          1)
   \<and> num_double_quotes ''b'' = 0 \<and> num_double_quotes ''``'' = 1"
  by (simp add: handle_eval)

subsection \<open>C9: the offset list covers the last line only\<close>

text \<open>
  C9.  \<open>diff_wordsToChars\<close> always returns, and the offset list it returns for a
  text is the list of token spans of the last line that has tokens: the loop assigns
  \<open>offset_list\<close> on every such line where it extends \<open>words\<close>.  When two or
  more lines have tokens, the list is therefore shorter than the word sequence the
  symbols encode.  \<open>diff_wordMode\<close> hands the two lists on unchanged: for every
  \<open>diff_main\<close> that meets its contract it returns, with these two lists, and the
  classifier is run on them, each span shifted by the offset of its sentence, so on
  lists of the same lengths.
\<close>

theorem C9_offsets_of_last_line_only:
  "\<exists>c1 c2 arr o1 o2.
     diff_wordsToChars nlp txt1 txt2 = Inr (c1, c2, arr, (o1, o2))
     \<and> o1 = last_line_offsets nlp txt1 \<and> o2 = last_line_offsets nlp txt2
     \<and> (2 \<le> length (token_lines nlp txt1) \<longrightarrow>
          o1 = map snd (nlp (last (token_lines nlp txt1)))
          \<and> length o1 < length (fst (text_words nlp txt1)))
     \<and> (2 \<le> length (token_lines nlp txt2) \<longrightarrow>
          o2 = map snd (nlp (last (token_lines nlp txt2)))
          \<and> length o2 < length (fst (text_words nlp txt2)))
     \<and> (\<forall>diff char_diff offsets.
          diff_wordMode dmp nlp txt1 txt2 = Inr (diff, char_diff, offsets) \<longrightarrow> offsets = (o1, o2))
     \<and> ((\<forall>a b. valid_diff (dmp a b) a b) \<longrightarrow>
          (\<exists>diff. diff_wordMode dmp nlp txt1 txt2 = Inr (diff, dmp c1 c2, (o1, o2))
             \<and> diff_sentences dmp nlp format_edit cont1 cont2 n txt1 txt2 off1 off2
                 = handle_diff format_edit cont1 cont2 n diff (dmp c1 c2)
                     (get_token_offsets o1 off1) (get_token_offsets o2 off2)
             \<and> length (get_token_offsets o1 off1) = length o1
             \<and> length (get_token_offsets o2 off2) = length o2))"
proof -
  from diff_wordsToChars_total [of nlp txt1 txt2]
  obtain c1 c2 arr where
    w: "diff_wordsToChars nlp txt1 txt2 =
          Inr (c1, c2, arr, (snd (text_words nlp txt1), snd (text_words nlp txt2)))"
    and rng: "\<forall>c \<in> set c1 \<union> set c2. c < length arr"
    by (elim exE conjE) (rule that)
  have o: "snd (text_words nlp txt1) = last_line_offsets nlp txt1"
    "snd (text_words nlp txt2) = last_line_offsets nlp txt2"
    by (simp_all add: text_words_eq)
  let ?o1 = "last_line_offsets nlp txt1" and ?o2 = "last_line_offsets nlp txt2"
  have w': "diff_wordsToChars nlp txt1 txt2 = Inr (c1, c2, arr, (?o1, ?o2))"
    using w by (simp only: o)
  have m: "\<forall>diff char_diff offsets.
      diff_wordMode dmp nlp txt1 txt2 = Inr (diff, char_diff, offsets) \<longrightarrow> offsets = (?o1, ?o2)"
    using w' by (auto simp: diff_wordMode_def Let_def split: sum.splits)
  have s1: "2 \<le> length (token_lines nlp txt1) \<longrightarrow>
      ?o1 = map snd (nlp (last (token_lines nlp txt1)))
      \<and> length ?o1 < length (fst (text_words nlp txt1))"
    using offsets_shorter [of nlp txt1] by simp
  have s2: "2 \<le> length (token_lines nlp txt2) \<longrightarrow>
      ?o2 = map snd (nlp (last (token_lines nlp txt2)))
      \<and> length ?o2 < length (fst (text_words nlp txt2))"
    using offsets_shorter [of nlp txt2] by simp
  have p: "(\<forall>a b. valid_diff (dmp a b) a b) \<longrightarrow>
          (\<exists>diff. diff_wordMode dmp nlp txt1 txt2 = Inr (diff, dmp c1 c2, (?o1, ?o2))
             \<and> diff_sentences dmp nlp format_edit cont1 cont2 n txt1 txt2 off1 off2
                 = handle_diff format_edit cont1 cont2 n diff (dmp c1 c2)
                     (get_token_offsets ?o1 off1) (get_token_offsets ?o2 off2)
             \<and> length (get_token_offsets ?o1 off1) = length ?o1
             \<and> length (get_token_offsets ?o2 off2) = length ?o2)"
  proof
    assume valid: "\<forall>a b. valid_diff (dmp a b) a b"
    let ?diff = "map (\<lambda>r. (fst r, concat (map (\<lambda>c. arr ! c) (snd r)))) (dmp c1 c2)"
    have r: "diff_wordMode dmp nlp txt1 txt2 = Inr (?diff, dmp c1 c2, (?o1, ?o2))"
      by (rule diff_wordMode_props [OF valid w' rng])
    have d: "diff_sentences dmp nlp format_edit cont1 cont2 n txt1 txt2 off1 off2
                 = handle_diff format_edit cont1 cont2 n ?diff (dmp c1 c2)
                     (get_token_offsets ?o1 off1) (get_token_offsets ?o2 off2)"
      by (simp add: diff_sentences_def r)
    show "\<exists>diff. diff_wordMode dmp nlp txt1 txt2 = Inr (diff, dmp c1 c2, (?o1, ?o2))
             \<and> diff_sentences dmp nlp format_edit cont1 cont2 n txt1 txt2 off1 off2
                 = handle_diff format_edit cont1 cont2 n diff (dmp c1 c2)
                     (get_token_offsets ?o1 off1) (get_token_offsets ?o2 off2)
             \<and> length (get_token_offsets ?o1 off1) = length ?o1
             \<and> length (get_token_offsets ?o2 off2) = length ?o2"
      apply (rule exI [of _ ?diff])
      apply (intro conjI r d)
       apply (simp_all add: get_token_offsets_def)
      done
  qed
  show ?thesis
    apply (rule exI [of _ c1], rule exI [of _ c2], rule exI [of _ arr])
    apply (rule exI [of _ ?o1])
    apply (rule exI [of _ ?o2])
    apply (intro conjI w' refl s1 s2 m p)
    done
qed

lemma ex_token_lines: "token_lines ws_tokenize ''a b\<newline>c'' = [''a b'', ''c'']"
  by code_simp

lemma ex_text_words: "text_words ws_tokenize ''a b\<newline>c'' = ([''a'', ''b'', ''c''], [(0, 1)])"
  by code_simp

lemma ex_last_line_offsets:
  "last_line_offsets ws_tokenize ''a b\<newline>c'' = [(0, 1)]"
  "last_line_offsets ws_tokenize ''x\<newline>y'' = [(0, 1)]"
  by code_simp+

lemma ex_token_lines2: "token_lines ws_tokenize ''x\<newline>y'' = [''x'', ''y'']"
  by code_simp

lemma ex_text_words2: "text_words ws_tokenize ''x\<newline>y'' = ([''x'', ''y''], [(0, 1)])"
  by code_simp

lemma ex_lines_w2c:
  "diff_wordsToChars ws_tokenize ''a b\<newline>c'' ''x\<newline>y''
     = Inr ([1, 2, 3], [4, 5], ['''', ''a '', ''b '', ''c '', ''x '', ''y ''], ([(0, 1)], [(0, 1)]))"
  by (simp add: munge_eval ex_text_words ex_text_words2)

lemma ex_lines_wordMode:
  "diff_wordMode trim_diff ws_tokenize ''a b\<newline>c'' ''x\<newline>y''
     = Inr ([(DIFF_DELETE, ''a b c ''), (DIFF_INSERT, ''x y '')],
            [(DIFF_DELETE, [1, 2, 3]), (DIFF_INSERT, [4, 5])],
            ([(0, 1)], [(0, 1)]))"
  by (simp add: diff_wordMode_def munge_eval ex_text_words ex_text_words2 trim_diff_def run_def)

text \<open>
  The classifier on these two sentences: the deleted run has three tokens and the
  inserted run two, and each span of the record covers the one token whose offset is
  left.
\<close>

lemma ex_lines_classified:
  "diff_sentences trim_diff ws_tokenize (\<lambda>t e. e @ '':'' @ t) ''a b\<newline>c'' ''x\<newline>y'' 0
      ''a b\<newline>c'' ''x\<newline>y'' 0 0
     = Inr (''substitution:a b c'', ''substitution:x y'',
          [\<lparr>edit_type = ''substitution'', offset1 = (0, 1), offset2 = (0, 1),
            text1 = ''a'', text2 = ''x''\<rparr>], 1)"
  by (simp add: diff_sentences_def ex_lines_wordMode get_token_offsets_def handle_eval)

theorem C9_witness:
  "2 \<le> length (token_lines ws_tokenize ''a b\<newline>c'')
   \<and> 2 \<le> length (token_lines ws_tokenize ''x\<newline>y'')
   \<and> (\<forall>a b :: nat list. valid_diff (trim_diff a b) a b)
   \<and> (\<exists>c1 c2 arr. diff_wordsToChars ws_tokenize ''a b\<newline>c'' ''x\<newline>y'' =
          Inr (c1, c2, arr, ([(0, 1)], [(0, 1)])))
   \<and> length [(0::int, 1::int)] < length (fst (text_words ws_tokenize ''a b\<newline>c''))
   \<and> length [(0::int, 1::int)] < length (fst (text_words ws_tokenize ''x\<newline>y''))
   \<and> (\<exists>diff char_diff. diff_wordMode trim_diff ws_tokenize ''a b\<newline>c'' ''x\<newline>y''
          = Inr (diff, char_diff, ([(0, 1)], [(0, 1)])))"
proof -
  have v: "\<forall>a b :: nat list. valid_diff (trim_diff a b) a b"
    by (simp add: trim_diff_valid)
  from C9_offsets_of_last_line_only [where nlp = ws_tokenize and ?txt1.0 = "''a b\<newline>c''"
      and ?txt2.0 = "''x\<newline>y''"
      and dmp = trim_diff and format_edit = "\<lambda>t e. e" and ?cont1.0 = "[]" and ?cont2.0 = "[]"
      and n = 0 and ?off1.0 = 0 and ?off2.0 = 0]
  obtain c1 c2 arr o1 o2 where
    "diff_wordsToChars ws_tokenize ''a b\<newline>c'' ''x\<newline>y'' = Inr (c1, c2, arr, (o1, o2))"
    "o1 = last_line_offsets ws_tokenize ''a b\<newline>c''"
    "o2 = last_line_offsets ws_tokenize ''x\<newline>y''"
    "(\<forall>a b :: nat list. valid_diff (trim_diff a b) a b) \<longrightarrow>
       (\<exists>diff. diff_wordMode trim_diff ws_tokenize ''a b\<newline>c'' ''x\<newline>y''
           = Inr (diff, trim_diff c1 c2, (o1, o2))
         \<and> diff_sentences trim_diff ws_tokenize (\<lambda>t e. e) [] [] 0 ''a b\<newline>c'' ''x\<newline>y'' 0 0
             = handle_diff (\<lambda>t e. e) [] [] 0 diff (trim_diff c1 c2)
                 (get_token_offsets o1 0) (get_token_offsets o2 0)
         \<and> length (get_token_offsets o1 0) = length o1
         \<and> length (get_token_offsets o2 0) = length o2)"
    by (elim exE conjE) (rule that)
  with v show ?thesis
    by (auto simp: ex_token_lines ex_token_lines2 ex_text_words ex_text_words2 ex_last_line_offsets)
qed

section \<open>Properties of the sentence offset table\<close>

lemma strip_length: "length (strip s) \<le> length s"
proof -
  have "length (dropWhile is_space (rev (dropWhile is_space s))) \<le> length (rev (dropWhile is_space s))"
    by (rule length_dropWhile_le)
  also have "\<dots> \<le> length s" by (simp add: length_dropWhile_le)
  finally show ?thesis by (simp add: strip_def)
qed

lemma offsets_loop_props:
  assumes "\<forall>j l. i \<le> j \<and> j < i + length paragraphs \<and> so j = Some l \<longrightarrow> span_list_ok l"
    and "0 \<le> cur"
    and "sorted (map fst (real_spans offsets))"
    and "\<forall>s \<in> set (real_spans offsets). fst s < snd s \<and> fst s \<le> cur"
  shows "\<exists>table. offsets_loop so paragraphs i cur offsets = Inr table
           \<and> length table = length offsets + sum_list (map (slots so) [i..<i + length paragraphs])
           \<and> length (sentinels table) = length (sentinels offsets)
                + length (filter (\<lambda>j. so j = None) [i..<i + length paragraphs])
           \<and> sorted (map fst (real_spans table))
           \<and> (\<forall>s \<in> set (real_spans table). fst s < snd s)"
  using assms
proof (induction paragraphs arbitrary: i cur offsets)
  case Nil
  then show ?case by simp
next
  case (Cons par paragraphs)
  have upt: "[i..<i + length (par # paragraphs)] = i # [Suc i..<Suc i + length paragraphs]"
    by (subst upt_rec) simp
  have wf': "\<forall>j l. Suc i \<le> j \<and> j < Suc i + length paragraphs \<and> so j = Some l \<longrightarrow> span_list_ok l"
  proof (intro allI impI)
    fix j l assume "Suc i \<le> j \<and> j < Suc i + length paragraphs \<and> so j = Some l"
    then have "i \<le> j \<and> j < i + length (par # paragraphs) \<and> so j = Some l" by simp
    with Cons.prems(1) show "span_list_ok l" by blast
  qed
  show ?case
  proof (cases "so i")
    case None
    have r: "real_spans (offsets @ [(-1, -1)]) = real_spans offsets"
      by (simp add: real_spans_def)
    have c: "0 \<le> cur + 1" using Cons.prems(2) by simp
    have b: "\<forall>s \<in> set (real_spans (offsets @ [(-1, -1)])). fst s < snd s \<and> fst s \<le> cur + 1"
      unfolding r using Cons.prems(4) by auto
    have s': "sorted (map fst (real_spans (offsets @ [(-1, -1)])))"
      unfolding r by (rule Cons.prems(3))
    from Cons.IH [OF wf' c s' b]
    obtain table where
      "offsets_loop so paragraphs (Suc i) (cur + 1) (offsets @ [(-1, -1)]) = Inr table"
      "length table = length (offsets @ [(-1, -1)]) + sum_list (map (slots so) [Suc i..<Suc i + length paragraphs])"
      "length (sentinels table) = length (sentinels (offsets @ [(-1, -1)]))
                + length (filter (\<lambda>j. so j = None) [Suc i..<Suc i + length paragraphs])"
      "sorted (map fst (real_spans table))" "\<forall>s \<in> set (real_spans table). fst s < snd s"
      by (elim exE conjE) (rule that)
    then show ?thesis
      unfolding upt using None slots_def [of so i] by (simp add: sentinels_def del: upt_Suc)
  next
    case (Some l)
    have "i \<le> i \<and> i < i + length (par # paragraphs) \<and> so i = Some l"
      using Some by simp
    with Cons.prems(1) have "span_list_ok l" by blast
    then have l: "l \<noteq> []" "sorted (map fst l)"
      "\<forall>s \<in> set l. 0 \<le> fst s \<and> fst s < snd s"
      by (simp_all add: span_list_ok_def)
    let ?shift = "map (\<lambda>s. (fst s + cur, snd s + cur)) l"
    let ?curr = "cur + snd (last l) + 1"
    let ?curr' = "if par \<noteq> [] \<and> last par = CHR '' ''
                  then ?curr + (int (length par) - int (length (strip par))) else ?curr"
    have lastl: "last l \<in> set l" using l(1) by simp
    have le_last: "fst s \<le> fst (last l)" if "s \<in> set l" for s
    proof -
      from l(1) have "l = butlast l @ [last l]" by simp
      then have "map fst l = map fst (butlast l) @ [fst (last l)]"
        by (metis list.simps(8,9) map_append)
      with l(2) have "\<forall>x \<in> set (map fst (butlast l)). x \<le> fst (last l)"
        by (simp add: sorted_append)
      with that show ?thesis
        using \<open>l = butlast l @ [last l]\<close>
        by (metis Un_iff empty_iff empty_set image_eqI insert_iff list.set(2) order_refl set_append set_map)
    qed
    have noreal: "real_spans ?shift = ?shift"
      using l(3) Cons.prems(2) by (auto simp: real_spans_def filter_id_conv)
    have rs: "real_spans (offsets @ ?shift) = real_spans offsets @ ?shift"
      using noreal by (simp add: real_spans_def)
    have mfst: "map fst ?shift = map (\<lambda>b. b + cur) (map fst l)"
      by (simp add: comp_def)
    have sorted_shift: "sorted (map fst ?shift)"
      unfolding mfst using l(2) by (simp add: sorted_map)
    have sorted': "sorted (map fst (real_spans (offsets @ ?shift)))"
      unfolding rs using Cons.prems(3,4) sorted_shift l(3) Cons.prems(2)
      by (auto simp: sorted_append split_beta) force
    have curr_le: "?curr \<le> ?curr'"
      using strip_length [of par] by simp
    have c: "0 \<le> ?curr'"
      using curr_le l(3) lastl Cons.prems(2) by force
    have b: "\<forall>s \<in> set (real_spans (offsets @ ?shift)). fst s < snd s \<and> fst s \<le> ?curr'"
    proof
      fix s assume "s \<in> set (real_spans (offsets @ ?shift))"
      then consider "s \<in> set (real_spans offsets)" | "s \<in> set ?shift"
        unfolding rs by auto
      then show "fst s < snd s \<and> fst s \<le> ?curr'"
      proof cases
        case 1
        with Cons.prems(4) have "fst s < snd s" "fst s \<le> cur" by auto
        moreover have "cur \<le> ?curr" using l(3) lastl by force
        ultimately show ?thesis using curr_le by linarith
      next
        case 2
        then obtain t where t: "t \<in> set l" "s = (fst t + cur, snd t + cur)"
          by auto
        with l(3) have "fst s < snd s" by auto
        moreover have "fst t \<le> fst (last l)" using le_last t(1) by simp
        moreover have "fst (last l) < snd (last l)" using l(3) lastl by simp
        ultimately show ?thesis using t(2) curr_le by simp
      qed
    qed
    from Cons.IH [OF wf' c sorted' b]
    obtain table where
      "offsets_loop so paragraphs (Suc i) ?curr' (offsets @ ?shift) = Inr table"
      "length table = length (offsets @ ?shift) + sum_list (map (slots so) [Suc i..<Suc i + length paragraphs])"
      "length (sentinels table) = length (sentinels (offsets @ ?shift))
                + length (filter (\<lambda>j. so j = None) [Suc i..<Suc i + length paragraphs])"
      "sorted (map fst (real_spans table))" "\<forall>s \<in> set (real_spans table). fst s < snd s"
      by (elim exE conjE) (rule that)
    moreover have "sentinels (offsets @ ?shift) = sentinels offsets"
      using l(3) Cons.prems(2) by (auto simp: sentinels_def filter_empty_conv)
    moreover have "offsets_loop so (par # paragraphs) i cur offsets
        = offsets_loop so paragraphs (Suc i) ?curr' (offsets @ ?shift)"
      using Some l(1) by (simp add: Let_def case_prod_unfold)
    ultimately show ?thesis
      unfolding upt using Some slots_def [of so i]
      by (simp del: upt_Suc offsets_loop.simps)
  qed
qed

lemma offsets_loop_table:
  assumes "local_spans_ok so (length paragraphs)"
  shows "\<exists>table. offsets_loop so paragraphs 0 0 [] = Inr table
           \<and> table_ok so (length paragraphs) table"
proof -
  have wf: "\<forall>j l. 0 \<le> j \<and> j < 0 + length paragraphs \<and> so j = Some l \<longrightarrow> span_list_ok l"
    using assms by (auto simp: local_spans_ok_def)
  have s: "sorted (map fst (real_spans []))" by (simp add: real_spans_def)
  have b: "\<forall>s \<in> set (real_spans []). fst s < snd s \<and> fst s \<le> 0" by (simp add: real_spans_def)
  from offsets_loop_props [OF wf order_refl s b]
  show ?thesis
    by (simp add: table_ok_def sentinels_def)
qed

subsection \<open>C6: the table of a document\<close>

text \<open>
  C6.  For a document whose local sentence spans are as a segmenter gives them (per
  paragraph a non-empty list ordered by start, every span starting at 0 or later and
  ending after its start), \<open>get_sentence_offsets\<close> returns a table with one entry
  per sentence and one sentinel \<open>(-1, -1)\<close> per paragraph without sentences; the
  entries other than the sentinel are in non-decreasing order of start, and each ends
  after its start.  This holds for either file.
\<close>

theorem C6_sentence_offset_table:
  "(local_spans_ok (sentence_offsets1 self) (length (split_nl (content1 self))) \<longrightarrow>
      (\<exists>table. get_sentence_offsets self 1 = Inr table
         \<and> table_ok (sentence_offsets1 self) (length (split_nl (content1 self))) table))
   \<and> (local_spans_ok (sentence_offsets2 self) (length (split_nl (content2 self))) \<longrightarrow>
      (\<exists>table. get_sentence_offsets self 2 = Inr table
         \<and> table_ok (sentence_offsets2 self) (length (split_nl (content2 self))) table))"
  using offsets_loop_table [of "sentence_offsets1 self" "split_nl (content1 self)"]
    offsets_loop_table [of "sentence_offsets2 self" "split_nl (content2 self)"]
  by (simp add: get_sentence_offsets_def)

theorem C6_witness:
  "local_spans_ok [0 \<mapsto> [(0, 2)], 2 \<mapsto> [(0, 2)]] (length (split_nl ''ab\<newline>\<newline>cd''))
   \<and> get_sentence_offsets
        \<lparr>content1 = ''ab\<newline>\<newline>cd'', content2 = '''',
         sentence_offsets1 = [0 \<mapsto> [(0, 2)], 2 \<mapsto> [(0, 2)]], sentence_offsets2 = Map.empty\<rparr> 1
       = Inr [(0, 2), (-1, -1), (4, 6)]
   \<and> table_ok [0 \<mapsto> [(0, 2)], 2 \<mapsto> [(0, 2)]] (length (split_nl ''ab\<newline>\<newline>cd''))
        [(0, 2), (-1, -1), (4, 6)]"
proof -
  let ?self = "\<lparr>content1 = ''ab\<newline>\<newline>cd'', content2 = '''',
         sentence_offsets1 = [0 \<mapsto> [(0, 2)], 2 \<mapsto> [(0::int, 2::int)]], sentence_offsets2 = Map.empty\<rparr>"
  have ok: "local_spans_ok (sentence_offsets1 ?self) (length (split_nl (content1 ?self)))"
    by (simp add: local_spans_ok_def span_list_ok_def)
  have ev: "get_sentence_offsets ?self 1 = Inr [(0, 2), (-1, -1), (4, 6)]"
    by (simp add: get_sentence_offsets_def)
  from C6_sentence_offset_table [of ?self] ok ev show ?thesis
    by auto
qed

section \<open>Properties of the file effects\<close>

subsection \<open>The constructor changes one file\<close>






subsection \<open>C10: the first input file is changed\<close>



lemmas files_eval = AlignedText_init_def append_file_def read_paragraphs_def read_file_def
  align_pars_def no_alignments_def one_paragraph_def same_dir_def get_sentence_offsets_def
  strip_def is_space_def Let_def

lemma ex_same_path:
  "AlignedText_init same_dir no_alignments one_paragraph [0 \<mapsto> ''x''] ''a.txt'' ''a.txt''
       ''stop.txt'' False () () ()
     = ([0 \<mapsto> ''x\<newline>''],
        Inr (\<lparr>content1 = ''x'', content2 = ''x'',
               sentence_offsets1 = [0 \<mapsto> [(0, 1)]], sentence_offsets2 = [0 \<mapsto> [(0, 1)]]\<rparr>,
             [[''x'']], [[''x'']], [(0, 1)], [(0, 1)], (), []))"
  by (simp add: files_eval)


lemma ex_other_spelling:
  "''./a.txt'' \<noteq> ''a.txt''
   \<and> fst (AlignedText_init same_dir no_alignments one_paragraph [0 \<mapsto> ''x''] ''a.txt'' ''./a.txt''
           ''stop.txt'' False () () ()) (same_dir ''./a.txt'') = Some ''x\<newline>''"
  by (simp add: files_eval)




end
